theory Spec2Isabelle
  imports Complex_Main "HOL-Library.Sublist"
begin

unbundle bit_operations_syntax

section \<open>The red-zone monitor of \<^verbatim>\<open>yolo_camera.py\<close>\<close>

text \<open>
  The script is one \<^verbatim>\<open>while True\<close> loop: read a frame, run the detector, keep the
  boxes whose centre lies in the red zone, and log an entry or exit record when the
  occupancy changes. The model follows the script line by line. What the script reads
  from the outside (the frame and what the detector returns on it, the clock, the key
  pressed, whether a file operation works) is the input of an iteration; what it
  changes (its three flags, the log file, the snapshot files, the console, the camera
  handle) is the state. Drawing on the frame and showing the window (lines 50-56,
  83-88, 142-183) change none of these and are left out.
\<close>

subsection \<open>Values read off the detector\<close>

text \<open>
  \<^verbatim>\<open>datetime.now()\<close> is a reading of the clock; the two \<^verbatim>\<open>strftime\<close> formats of the
  script are \<^verbatim>\<open>%Y-%m-%d %H:%M:%S\<close> and \<^verbatim>\<open>%H%M%S\<close>.
\<close>

record datetime =
  year :: nat
  month :: nat
  day :: nat
  hour :: nat
  minute :: nat
  second :: nat

definition digit :: "nat \<Rightarrow> char" where
  "digit n = ''0123456789'' ! (n mod 10)"

definition pad2 :: "nat \<Rightarrow> string" where
  "pad2 n = [digit (n div 10), digit n]"

definition pad4 :: "nat \<Rightarrow> string" where
  "pad4 n = [digit (n div 1000), digit (n div 100), digit (n div 10), digit n]"

definition strftime_ymd_hms :: "datetime \<Rightarrow> string" where
  "strftime_ymd_hms t =
     pad4 (year t) @ ''-'' @ pad2 (month t) @ ''-'' @ pad2 (day t) @ '' '' @
     pad2 (hour t) @ '':'' @ pad2 (minute t) @ '':'' @ pad2 (second t)"

definition strftime_hms :: "datetime \<Rightarrow> string" where
  "strftime_hms t = pad2 (hour t) @ pad2 (minute t) @ pad2 (second t)"

text \<open>
  One YOLO box as the loop body reads it (lines 64-68): the four corner coordinates
  after \<^verbatim>\<open>map(int, box.xyxy[0])\<close>, the confidence \<^verbatim>\<open>float(box.conf[0])\<close>, the label
  \<^verbatim>\<open>model.names[cls]\<close> and the clock reading taken while the box is processed.
  Python's integers are unbounded, hence \<open>int\<close>. A confidence is a finite float, and
  every finite float is a rational number, hence \<open>rat\<close>: comparisons are then exact.
\<close>

record box =
  bx1 :: int
  by1 :: int
  bx2 :: int
  by2 :: int
  conf :: rat
  label :: string
  seen :: datetime

text \<open>The dictionary \<^verbatim>\<open>RED_ZONE\<close> with its four fixed keys, and the configuration.\<close>

record zone =
  zx1 :: int
  zy1 :: int
  zx2 :: int
  zy2 :: int

definition RED_ZONE :: zone where
  "RED_ZONE = \<lparr>zx1 = 200, zy1 = 150, zx2 = 450, zy2 = 350\<rparr>"

text \<open>
  The literal \<^verbatim>\<open>0.6\<close> is the double nearest to six tenths, which is
  \<open>5404319552844595 / 2^53\<close>, slightly below six tenths.
\<close>

definition CONFIDENCE_THRESHOLD :: rat where
  "CONFIDENCE_THRESHOLD = 5404319552844595 / 9007199254740992"

subsection \<open>The zone filter (lines 60-96)\<close>

text \<open>
  \<^verbatim>\<open>round(conf, 2)\<close>: the nearest multiple of one hundredth, a tie going to the even
  one. (Python returns the double nearest to that decimal; its \<^verbatim>\<open>repr\<close>, which is
  what the log shows, is the decimal itself.)
\<close>

definition round2 :: "rat \<Rightarrow> rat" where
  "round2 c =
     (let n = \<lfloor>c * 100\<rfloor>; f = c * 100 - of_int n
      in if f < 1 / 2 then of_int n / 100
         else if 1 / 2 < f then of_int (n + 1) / 100
         else if even n then of_int n / 100 else of_int (n + 1) / 100)"

text \<open>An entry of \<^verbatim>\<open>detections_in_zone\<close>: a dictionary with four fixed keys.\<close>

record detection =
  name :: string
  confidence :: rat
  timestamp :: string
  coords :: "int \<times> int \<times> int \<times> int"

text \<open>Line 74. Python's \<^verbatim>\<open>//\<close> on integers is \<open>div\<close> on \<open>int\<close>.\<close>

definition center :: "box \<Rightarrow> int \<times> int" where
  "center b = ((bx1 b + bx2 b) div 2, (by1 b + by2 b) div 2)"

text \<open>Lines 77-80.\<close>

definition inside_zone :: "zone \<Rightarrow> int \<times> int \<Rightarrow> bool" where
  "inside_zone z c =
     (case c of (cx, cy) \<Rightarrow> (zx1 z \<le> cx \<and> cx \<le> zx2 z) \<and> (zy1 z \<le> cy \<and> cy \<le> zy2 z))"

text \<open>Lines 91-96: the dictionary appended for a box inside the zone.\<close>

definition entry :: "box \<Rightarrow> detection" where
  "entry b =
     \<lparr>name = label b, confidence = round2 (conf b),
      timestamp = strftime_ymd_hms (seen b),
      coords = (bx1 b, by1 b, bx2 b, by2 b)\<rparr>"

text \<open>
  The body of the inner loop for one box, on the list collected so far: the
  \<^verbatim>\<open>continue\<close> of line 71 leaves the list as it is, line 91 appends to it. The zone
  and the threshold are the two module constants; they are parameters here and the
  main loop passes \<open>RED_ZONE\<close> and \<open>CONFIDENCE_THRESHOLD\<close>.
\<close>

definition process_box :: "zone \<Rightarrow> rat \<Rightarrow> detection list \<Rightarrow> box \<Rightarrow> detection list" where
  "process_box z thr acc b =
     (if conf b < thr then acc
      else if inside_zone z (center b) then acc @ [entry b] else acc)"

text \<open>
  The two nested \<^verbatim>\<open>for\<close> loops of lines 62-63, over the results of the detector and
  over the boxes of each result, starting from the empty list of line 60.
\<close>

fun boxes_loop :: "zone \<Rightarrow> rat \<Rightarrow> detection list \<Rightarrow> box list \<Rightarrow> detection list" where
  "boxes_loop z thr acc [] = acc"
| "boxes_loop z thr acc (b # bs) = boxes_loop z thr (process_box z thr acc b) bs"

fun results_loop :: "zone \<Rightarrow> rat \<Rightarrow> detection list \<Rightarrow> box list list \<Rightarrow> detection list" where
  "results_loop z thr acc [] = acc"
| "results_loop z thr acc (r # rs) = results_loop z thr (boxes_loop z thr acc r) rs"

definition detections_in_zone :: "zone \<Rightarrow> rat \<Rightarrow> box list list \<Rightarrow> detection list" where
  "detections_in_zone z thr results = results_loop z thr [] results"

subsection \<open>Log records\<close>

text \<open>
  The Python values the script hands to \<^verbatim>\<open>json.dumps\<close>: strings, integers, floats,
  tuples, lists and dictionaries (in insertion order, hence association lists).
\<close>

datatype pyval =
    PStr string
  | PInt int
  | PFloat rat
  | PTuple "pyval list"
  | PList "pyval list"
  | PDict "(string \<times> pyval) list"

text \<open>
  A line of the log is the text of one JSON document followed by a newline. The state
  keeps the documents; \<open>json_text\<close> below is their text and \<open>json_parse\<close> reads it
  back. \<open>json_dumps\<close> and \<open>json_loads\<close> are the conversion tables of Python's \<^verbatim>\<open>json\<close>
  module between its values and documents: a tuple and a list both become an array,
  an array is read back as a list, a dictionary is an object and back.
\<close>

datatype json =
    JString string
  | JInt int
  | JReal rat
  | JArray "json list"
  | JObject "(string \<times> json) list"

fun json_dumps :: "pyval \<Rightarrow> json" where
  "json_dumps (PStr s) = JString s"
| "json_dumps (PInt n) = JInt n"
| "json_dumps (PFloat x) = JReal x"
| "json_dumps (PTuple vs) = JArray (map json_dumps vs)"
| "json_dumps (PList vs) = JArray (map json_dumps vs)"
| "json_dumps (PDict kvs) = JObject (map (map_prod id json_dumps) kvs)"

fun json_loads :: "json \<Rightarrow> pyval" where
  "json_loads (JString s) = PStr s"
| "json_loads (JInt n) = PInt n"
| "json_loads (JReal x) = PFloat x"
| "json_loads (JArray js) = PList (map json_loads js)"
| "json_loads (JObject kjs) = PDict (map (map_prod id json_loads) kjs)"

text \<open>Lines 111-115: one element of the list comprehension.\<close>

definition alert_object :: "detection \<Rightarrow> pyval" where
  "alert_object d =
     PDict [(''name'', PStr (name d)),
            (''confidence'', PFloat (confidence d)),
            (''coords'', case coords d of (x1, y1, x2, y2) \<Rightarrow>
                           PTuple [PInt x1, PInt y1, PInt x2, PInt y2])]"

text \<open>Lines 108-116.\<close>

definition alert :: "datetime \<Rightarrow> detection list \<Rightarrow> pyval" where
  "alert t ds =
     PDict [(''event'', PStr ''Object ENTERED red zone''),
            (''timestamp'', PStr (strftime_ymd_hms t)),
            (''objects'', PList (map alert_object ds))]"

text \<open>Lines 130-133.\<close>

definition exit_event :: "datetime \<Rightarrow> pyval" where
  "exit_event t =
     PDict [(''event'', PStr ''Object LEFT red zone''),
            (''timestamp'', PStr (strftime_ymd_hms t))]"

subsection \<open>The main loop (lines 44-191)\<close>

text \<open>
  The state: the three flags of lines 18-20, the lines this run has appended to
  \<^verbatim>\<open>yolo_redzone_log.txt\<close>, the snapshot files it has written, what it has printed
  inside the loop, and how many times \<^verbatim>\<open>cap.release()\<close> has been called.
\<close>

record state =
  object_in_zone :: bool
  alert_active :: bool
  cleared_printed :: bool
  log_file :: "json list"
  snapshots :: "string list"
  console :: "string list"
  released :: nat

definition initial :: state where
  "initial =
     \<lparr>object_in_zone = False, alert_active = False, cleared_printed = True,
      log_file = [], snapshots = [], console = [], released = 0\<rparr>"

text \<open>
  \<^verbatim>\<open>cv2.imwrite\<close> returns \<^verbatim>\<open>True\<close>, returns \<^verbatim>\<open>False\<close> when the file could not be
  written, or raises \<^verbatim>\<open>cv2.error\<close>.
\<close>

datatype imwrite_result = Saved | NotSaved | ImwriteError

text \<open>
  What one iteration reads from outside: \<^verbatim>\<open>cap.read()\<close> and the detector
  (\<open>None\<close> when \<^verbatim>\<open>ret\<close> is false, otherwise the results of \<^verbatim>\<open>model(frame)\<close>), the
  clock at the moment of an event, whether opening and writing the log file works
  (when it does not, \<^verbatim>\<open>open\<close> or \<^verbatim>\<open>write\<close> raises \<^verbatim>\<open>OSError\<close>), what
  \<^verbatim>\<open>cv2.imwrite\<close> does, and the value of \<^verbatim>\<open>cv2.waitKey(1)\<close>.
\<close>

record iter_input =
  frame :: "box list list option"
  now :: datetime
  log_ok :: bool
  imwrite :: imwrite_result
  key :: int

text \<open>
  How an iteration ends: at the bottom of the loop body, at a \<^verbatim>\<open>break\<close>, or with an
  exception. The script has no \<^verbatim>\<open>try\<close>, so an exception leaves the loop and the
  script.
\<close>

datatype control = Next state | Break state | Uncaught state

definition snapshot_name :: "datetime \<Rightarrow> string" where
  "snapshot_name t = ''redzone_capture_'' @ strftime_hms t @ ''.jpg''"

text \<open>Lines 98-139, in the order of the script.\<close>

definition entry_exit :: "state \<Rightarrow> iter_input \<Rightarrow> detection list \<Rightarrow> control" where
  "entry_exit s0 i ds =
     (let s = s0\<lparr>object_in_zone := length ds > 0\<rparr> in
      if object_in_zone s then
        (if \<not> alert_active s then
           (let s = s\<lparr>alert_active := True, cleared_printed := False\<rparr>;
                t = now i;
                line = json_dumps (alert t ds)
            in if \<not> log_ok i then Uncaught s
               else
                 (let s = s\<lparr>log_file := log_file s @ [line]\<rparr>;
                      snap = snapshot_name t;
                      msg = ''[ALERT] Object entered red zone! Snapshot saved: '' @ snap
                  in case imwrite i of
                       ImwriteError \<Rightarrow> Uncaught s
                     | Saved \<Rightarrow>
                         Next (s\<lparr>snapshots := snapshots s @ [snap],
                                 console := console s @ [msg]\<rparr>)
                     | NotSaved \<Rightarrow> Next (s\<lparr>console := console s @ [msg]\<rparr>)))
         else Next s)
      else
        (if alert_active s then
           (let t = now i;
                line = json_dumps (exit_event t)
            in if \<not> log_ok i then Uncaught s
               else
                 Next (s\<lparr>log_file := log_file s @ [line],
                         console := console s @ [''[CLEARED] Object left red zone.''],
                         alert_active := False\<rparr>))
         else Next s))"

text \<open>
  One pass through the loop body: lines 45-48, then the filter and the entry/exit
  logic, then the quit key of line 187 (\<open>113\<close> is \<^verbatim>\<open>ord('q')\<close>).
\<close>

definition iteration :: "state \<Rightarrow> iter_input \<Rightarrow> control" where
  "iteration s i =
     (case frame i of
        None \<Rightarrow> Break (s\<lparr>console := console s @ [''Failed to capture frame.'']\<rparr>)
      | Some results \<Rightarrow>
          (case entry_exit s i (detections_in_zone RED_ZONE CONFIDENCE_THRESHOLD results) of
             Next s' \<Rightarrow> if key i AND 255 = 113 then Break s' else Next s'
           | Break s' \<Rightarrow> Break s'
           | Uncaught s' \<Rightarrow> Uncaught s'))"

text \<open>
  The loop over the inputs of the successive iterations. It is still running when the
  inputs given are used up; after a \<^verbatim>\<open>break\<close> line 190 releases the camera and the
  script ends; an exception ends the script where it is raised, and line 190 is not
  reached.
\<close>

datatype outcome = Running state | Exited state | Crashed state

fun run_loop :: "state \<Rightarrow> iter_input list \<Rightarrow> outcome" where
  "run_loop s [] = Running s"
| "run_loop s (i # is) =
     (case iteration s i of
        Next s' \<Rightarrow> run_loop s' is
      | Break s' \<Rightarrow> Exited (s'\<lparr>released := released s' + 1\<rparr>)
      | Uncaught s' \<Rightarrow> Crashed s')"

definition final_state :: "outcome \<Rightarrow> state" where
  "final_state r = (case r of Running s \<Rightarrow> s | Exited s \<Rightarrow> s | Crashed s \<Rightarrow> s)"

subsection \<open>Events in the log\<close>

datatype event = ENTER | LEAVE

text \<open>The kind of event a line of the log records, read off its \<^verbatim>\<open>event\<close> tag.\<close>

definition json_get :: "json \<Rightarrow> string \<Rightarrow> json option" where
  "json_get j k = (case j of JObject kjs \<Rightarrow> map_of kjs k | _ \<Rightarrow> None)"

definition kind_of :: "json \<Rightarrow> event option" where
  "kind_of j =
     (if json_get j ''event'' = Some (JString ''Object ENTERED red zone'') then Some ENTER
      else if json_get j ''event'' = Some (JString ''Object LEFT red zone'') then Some LEAVE
      else None)"

definition objects_of :: "json \<Rightarrow> json list option" where
  "objects_of j = (case json_get j ''objects'' of Some (JArray os) \<Rightarrow> Some os | _ \<Rightarrow> None)"

text \<open>
  A sequence of lines records a strict alternation that starts with the given event:
  every line is an event, the first is the given one, and each next one is the other.
\<close>

fun other :: "event \<Rightarrow> event" where
  "other ENTER = LEAVE"
| "other LEAVE = ENTER"

fun alternates :: "event \<Rightarrow> event option list \<Rightarrow> bool" where
  "alternates e [] = True"
| "alternates e (x # xs) = (x = Some e \<and> alternates (other e) xs)"

definition events :: "state \<Rightarrow> event option list" where
  "events s = map kind_of (log_file s)"

subsection \<open>The text of a log line\<close>

text \<open>
  \<^verbatim>\<open>json.dumps\<close> renders the document as text, with the module's defaults: items are
  separated by a comma and a space, a key from its value by a colon and a space, and
  every character of a string outside the printable ASCII range, the quote and the
  backslash are escaped. The characters of a \<open>string\<close> stand for the code points below
  256. \<open>quote_char\<close> is the double quote.
\<close>

definition quote_char :: char where
  "quote_char = CHR 0x22"

definition backslash :: char where
  "backslash = CHR 0x5C"

text \<open>Integers in decimal.\<close>

function show_nat :: "nat \<Rightarrow> string" where
  "show_nat n = (if n < 10 then [digit n] else show_nat (n div 10) @ [digit n])"
  by pat_completeness auto
termination
  by (relation "measure id") auto

declare show_nat.simps [simp del]

definition show_int :: "int \<Rightarrow> string" where
  "show_int n = (if n < 0 then CHR ''-'' # show_nat (nat (- n)) else show_nat (nat n))"

text \<open>
  The \<^verbatim>\<open>repr\<close> of a float. The floats the script logs are results of
  \<^verbatim>\<open>round(conf, 2)\<close>, whole numbers of hundredths; for such a float below \<open>10^16\<close>
  Python prints the integer part, a point, and one or two digits of the fraction, never
  an exponent. \<open>float_repr\<close> is that text; on a number that is not a whole number of
  hundredths it prints the hundredths below it and is not Python's \<^verbatim>\<open>repr\<close>.
\<close>

definition fraction_text :: "nat \<Rightarrow> string" where
  "fraction_text fr =
     (if fr mod 10 = 0 then [digit (fr div 10)] else [digit (fr div 10), digit fr])"

definition float_repr :: "rat \<Rightarrow> string" where
  "float_repr x =
     (let k = nat \<lfloor>\<bar>x\<bar> * 100\<rfloor>
      in (if x < 0 then [CHR ''-''] else []) @ show_nat (k div 100) @ ''.'' @
         fraction_text (k mod 100))"

text \<open>Strings, as \<^verbatim>\<open>ensure_ascii\<close> escapes them.\<close>

definition hexdigit :: "nat \<Rightarrow> char" where
  "hexdigit n = ''0123456789abcdef'' ! (n mod 16)"

definition escape :: "char \<Rightarrow> string" where
  "escape c =
     (if c = quote_char then [backslash, quote_char]
      else if c = backslash then [backslash, backslash]
      else if c = CHR 0x0A then [backslash, CHR ''n'']
      else if c = CHR 0x0D then [backslash, CHR ''r'']
      else if c = CHR 0x09 then [backslash, CHR ''t'']
      else if c = CHR 0x08 then [backslash, CHR ''b'']
      else if c = CHR 0x0C then [backslash, CHR ''f'']
      else if 32 \<le> (of_char c :: nat) \<and> (of_char c :: nat) < 127 then [c]
      else [backslash, CHR ''u'', CHR ''0'', CHR ''0'',
            hexdigit (of_char c div 16), hexdigit (of_char c)])"

definition quoted :: "string \<Rightarrow> string" where
  "quoted s = quote_char # concat (map escape s) @ [quote_char]"

fun join :: "string list \<Rightarrow> string" where
  "join [] = []"
| "join [x] = x"
| "join (x # y # ys) = x @ '', '' @ join (y # ys)"

definition member_text :: "string \<Rightarrow> string \<Rightarrow> string" where
  "member_text k t = quoted k @ '': '' @ t"

fun json_text :: "json \<Rightarrow> string" where
  "json_text (JString s) = quoted s"
| "json_text (JInt n) = show_int n"
| "json_text (JReal x) = float_repr x"
| "json_text (JArray js) = ''['' @ join (map json_text js) @ '']''"
| "json_text (JObject kjs) = ''{'' @ join (map (\<lambda>(k, j). member_text k (json_text j)) kjs) @ ''}''"

text \<open>
  \<^verbatim>\<open>json.dumps(v)\<close> is the text of the document of \<open>v\<close>, and line 119 (as line 136)
  writes it followed by a newline. The text this run has appended to the log file is
  the text of its lines.
\<close>

definition dumps :: "pyval \<Rightarrow> string" where
  "dumps v = json_text (json_dumps v)"

definition log_text :: "state \<Rightarrow> string" where
  "log_text s = concat (map (\<lambda>j. json_text j @ [CHR 0x0A]) (log_file s))"

subsection \<open>Reading a log line\<close>

text \<open>
  \<^verbatim>\<open>json.loads\<close> scans the text into a document and converts it. The scanner reads
  strings with their escapes, integers, decimal fractions, arrays and objects, with
  white space between the tokens; \<open>None\<close> stands for \<^verbatim>\<open>JSONDecodeError\<close>, and also for
  what the log never holds and the model leaves out: \<^verbatim>\<open>true\<close>, \<^verbatim>\<open>false\<close>, \<^verbatim>\<open>null\<close>,
  exponents, and code points from 256 on.
\<close>

definition is_ws :: "char \<Rightarrow> bool" where
  "is_ws c = (c = CHR '' '' \<or> c = CHR 0x09 \<or> c = CHR 0x0A \<or> c = CHR 0x0D)"

definition skip_ws :: "string \<Rightarrow> string" where
  "skip_ws s = dropWhile is_ws s"

definition is_digit :: "char \<Rightarrow> bool" where
  "is_digit c = (48 \<le> (of_char c :: nat) \<and> (of_char c :: nat) \<le> 57)"

definition digits_value :: "string \<Rightarrow> nat" where
  "digits_value ds = foldl (\<lambda>a c. 10 * a + (of_char c - 48)) 0 ds"

definition hexval :: "char \<Rightarrow> nat option" where
  "hexval c =
     (let n = (of_char c :: nat)
      in if 48 \<le> n \<and> n \<le> 57 then Some (n - 48)
         else if 97 \<le> n \<and> n \<le> 102 then Some (n - 87)
         else if 65 \<le> n \<and> n \<le> 70 then Some (n - 55)
         else None)"

definition hex4 :: "char \<Rightarrow> char \<Rightarrow> char \<Rightarrow> char \<Rightarrow> char option" where
  "hex4 a b c d =
     (case (hexval a, hexval b, hexval c, hexval d) of
        (Some w, Some x, Some y, Some z) \<Rightarrow>
          (let n = ((w * 16 + x) * 16 + y) * 16 + z
           in if n < 256 then Some (char_of n) else None)
      | _ \<Rightarrow> None)"

definition unescape :: "char \<Rightarrow> char option" where
  "unescape e =
     (if e = quote_char then Some quote_char
      else if e = backslash then Some backslash
      else if e = CHR ''/'' then Some CHR ''/''
      else if e = CHR ''n'' then Some CHR 0x0A
      else if e = CHR ''r'' then Some CHR 0x0D
      else if e = CHR ''t'' then Some CHR 0x09
      else if e = CHR ''b'' then Some CHR 0x08
      else if e = CHR ''f'' then Some CHR 0x0C
      else None)"

text \<open>A string, from after its opening quote: the string and the text after its closing quote.\<close>

fun scan_string :: "string \<Rightarrow> (string \<times> string) option" where
  "scan_string [] = None"
| "scan_string (c # cs) =
     (if c = quote_char then Some ([], cs)
      else if c = backslash then
        (case cs of
           [] \<Rightarrow> None
         | e # r \<Rightarrow>
             if e = CHR ''u'' then
               (case r of
                  h1 # h2 # h3 # h4 # r' \<Rightarrow>
                    (case hex4 h1 h2 h3 h4 of
                       None \<Rightarrow> None
                     | Some ch \<Rightarrow>
                         (case scan_string r' of
                            None \<Rightarrow> None
                          | Some (t, r'') \<Rightarrow> Some (ch # t, r'')))
                | _ \<Rightarrow> None)
             else
               (case unescape e of
                  None \<Rightarrow> None
                | Some ch \<Rightarrow>
                    (case scan_string r of
                       None \<Rightarrow> None
                     | Some (t, r'') \<Rightarrow> Some (ch # t, r''))))
      else if (of_char c :: nat) < 32 then None
      else
        (case scan_string cs of
           None \<Rightarrow> None
         | Some (t, r) \<Rightarrow> Some (c # t, r)))"

text \<open>A number: an integer when it has no fraction, a float when it has one.\<close>

definition scan_number :: "string \<Rightarrow> (json \<times> string) option" where
  "scan_number s =
     (let neg = (case s of [] \<Rightarrow> False | c # _ \<Rightarrow> c = CHR ''-'');
          s1 = (if neg then tl s else s);
          ds = takeWhile is_digit s1;
          r1 = dropWhile is_digit s1
      in if ds = [] then None
         else
           (case r1 of
              [] \<Rightarrow> Some (JInt (if neg then - int (digits_value ds) else int (digits_value ds)), r1)
            | c # r2 \<Rightarrow>
                if c = CHR ''.'' then
                  (let fs = takeWhile is_digit r2;
                       r3 = dropWhile is_digit r2;
                       x = of_nat (digits_value ds) + of_nat (digits_value fs) / 10 ^ length fs
                   in if fs = [] then None
                      else Some (JReal (if neg then - x else x), r3))
                else Some (JInt (if neg then - int (digits_value ds) else int (digits_value ds)), r1)))"

text \<open>
  The items of a non-empty array or object, up to the closing bracket, each read by
  \<open>p\<close>. The first argument bounds the number of items; the number of characters left
  is enough.
\<close>

fun elements ::
  "nat \<Rightarrow> char \<Rightarrow> (string \<Rightarrow> ('a \<times> string) option) \<Rightarrow> string \<Rightarrow> ('a list \<times> string) option" where
  "elements 0 close p s = None"
| "elements (Suc k) close p s =
     (case p s of
        None \<Rightarrow> None
      | Some (v, r) \<Rightarrow>
          (case skip_ws r of
             [] \<Rightarrow> None
           | c # r' \<Rightarrow>
               if c = CHR '','' then
                 (case elements k close p r' of
                    None \<Rightarrow> None
                  | Some (vs, r'') \<Rightarrow> Some (v # vs, r''))
               else if c = close then Some ([v], r')
               else None))"

definition scan_member ::
  "(string \<Rightarrow> (json \<times> string) option) \<Rightarrow> string \<Rightarrow> ((string \<times> json) \<times> string) option" where
  "scan_member p s =
     (case skip_ws s of
        [] \<Rightarrow> None
      | q # cs \<Rightarrow>
          if q = quote_char then
            (case scan_string cs of
               None \<Rightarrow> None
             | Some (k, r) \<Rightarrow>
                 (case skip_ws r of
                    [] \<Rightarrow> None
                  | c # r' \<Rightarrow>
                      if c = CHR '':'' then
                        (case p r' of None \<Rightarrow> None | Some (j, r'') \<Rightarrow> Some ((k, j), r''))
                      else None))
          else None)"

text \<open>
  A value. The first argument bounds the nesting; the number of characters of the text
  is enough, and \<open>json_parse_text\<close> below shows that a line of the log is read in full.
\<close>

fun scan_value :: "nat \<Rightarrow> string \<Rightarrow> (json \<times> string) option" where
  "scan_value 0 s = None"
| "scan_value (Suc n) s =
     (case skip_ws s of
        [] \<Rightarrow> None
      | c # cs \<Rightarrow>
          if c = quote_char then
            (case scan_string cs of None \<Rightarrow> None | Some (t, r) \<Rightarrow> Some (JString t, r))
          else if c = CHR ''['' then
            (case skip_ws cs of
               [] \<Rightarrow> None
             | d # r \<Rightarrow>
                 if d = CHR '']'' then Some (JArray [], r)
                 else
                   (case elements (length cs) CHR '']'' (scan_value n) cs of
                      None \<Rightarrow> None
                    | Some (js, r') \<Rightarrow> Some (JArray js, r')))
          else if c = CHR ''{'' then
            (case skip_ws cs of
               [] \<Rightarrow> None
             | d # r \<Rightarrow>
                 if d = CHR ''}'' then Some (JObject [], r)
                 else
                   (case elements (length cs) CHR ''}'' (scan_member (scan_value n)) cs of
                      None \<Rightarrow> None
                    | Some (kjs, r') \<Rightarrow> Some (JObject kjs, r')))
          else scan_number (c # cs))"

definition json_parse :: "string \<Rightarrow> json option" where
  "json_parse s =
     (case scan_value (length s) s of
        None \<Rightarrow> None
      | Some (j, r) \<Rightarrow> if skip_ws r = [] then Some j else None)"

definition loads :: "string \<Rightarrow> pyval option" where
  "loads s = map_option json_loads (json_parse s)"

subsection \<open>Notions of the specification\<close>

text \<open>
  A qualifying detection, in the words of the specification: the confidence meets the
  threshold, and the centre lies in the zone with both bounds included on each axis.
\<close>

definition qualifies :: "zone \<Rightarrow> rat \<Rightarrow> box \<Rightarrow> bool" where
  "qualifies z thr b =
     (thr \<le> conf b \<and>
      zx1 z \<le> fst (center b) \<and> fst (center b) \<le> zx2 z \<and>
      zy1 z \<le> snd (center b) \<and> snd (center b) \<le> zy2 z)"

text \<open>
  Truncating integer division, in the words of the specification: the quotient of the
  absolute values, with the sign of the exact quotient (rounding toward zero).
\<close>

definition trunc_div :: "int \<Rightarrow> int \<Rightarrow> int" where
  "trunc_div a b = sgn a * sgn b * (\<bar>a\<bar> div \<bar>b\<bar>)"

text \<open>The state in which an iteration leaves the script, however it ends.\<close>

fun control_state :: "control \<Rightarrow> state" where
  "control_state (Next s) = s"
| "control_state (Break s) = s"
| "control_state (Uncaught s) = s"

subsection \<open>Notions for the round trip\<close>

text \<open>A whole number of hundredths.\<close>

definition hundredth :: "rat \<Rightarrow> bool" where
  "hundredth x = (x * 100 = of_int \<lfloor>x * 100\<rfloor>)"

text \<open>A document whose floats are whole numbers of hundredths.\<close>

fun printable :: "json \<Rightarrow> bool" where
  "printable (JString s) = True"
| "printable (JInt n) = True"
| "printable (JReal x) = hundredth x"
| "printable (JArray js) = list_all printable js"
| "printable (JObject kjs) = list_all (\<lambda>(k, j). printable j) kjs"

text \<open>The number of values in a document, which bounds its nesting.\<close>

fun nodes :: "json \<Rightarrow> nat" where
  "nodes (JString s) = 1"
| "nodes (JInt n) = 1"
| "nodes (JReal x) = 1"
| "nodes (JArray js) = Suc (sum_list (map nodes js))"
| "nodes (JObject kjs) = Suc (sum_list (map (\<lambda>(k, j). nodes j) kjs))"

text \<open>
  Text after which a number ends: nothing, or a character that is neither a digit nor a
  point. A character with which the text of a value begins.
\<close>

definition ends_number :: "string \<Rightarrow> bool" where
  "ends_number r = (case r of [] \<Rightarrow> True | c # _ \<Rightarrow> \<not> is_digit c \<and> c \<noteq> CHR ''.'')"

definition opens :: "char \<Rightarrow> bool" where
  "opens c = (c = quote_char \<or> c = CHR ''['' \<or> c = CHR ''{'' \<or> c = CHR ''-'' \<or> is_digit c)"

subsection \<open>Sample inputs\<close>

text \<open>
  A person well inside the default zone (scenario 1 of the specification), a box whose
  centre is the corner \<open>(200, 150)\<close> of the zone and whose confidence is exactly the
  threshold (scenario 4), a box below the threshold (scenario 2), a box left of the
  image origin and one above it.
\<close>

definition sample_time :: datetime where
  "sample_time = \<lparr>year = 2024, month = 3, day = 7, hour = 9, minute = 5, second = 42\<rparr>"

definition person_box :: box where
  "person_box =
     \<lparr>bx1 = 300, by1 = 200, bx2 = 350, by2 = 250, conf = 9 / 10,
      label = ''person'', seen = sample_time\<rparr>"

definition corner_box :: box where
  "corner_box =
     \<lparr>bx1 = 150, by1 = 100, bx2 = 250, by2 = 200, conf = CONFIDENCE_THRESHOLD,
      label = ''boat'', seen = sample_time\<rparr>"

definition weak_box :: box where
  "weak_box =
     \<lparr>bx1 = 300, by1 = 200, bx2 = 350, by2 = 250, conf = 4 / 10,
      label = ''person'', seen = sample_time\<rparr>"

definition negative_box :: box where
  "negative_box =
     \<lparr>bx1 = - 2, by1 = 0, bx2 = - 1, by2 = 1, conf = 9 / 10,
      label = ''person'', seen = sample_time\<rparr>"

definition flipped_box :: box where
  "flipped_box = negative_box\<lparr>bx1 := 0, by1 := - 2, bx2 := 1, by2 := - 1\<rparr>"

definition occupied_input :: iter_input where
  "occupied_input =
     \<lparr>frame = Some [[weak_box, person_box]], now = sample_time, log_ok = True,
      imwrite = Saved, key = - 1\<rparr>"

definition empty_input :: iter_input where
  "empty_input =
     \<lparr>frame = Some [[weak_box]], now = sample_time, log_ok = True,
      imwrite = Saved, key = - 1\<rparr>"

definition no_frame_input :: iter_input where
  "no_frame_input =
     \<lparr>frame = None, now = sample_time, log_ok = True, imwrite = Saved, key = - 1\<rparr>"

definition unsaved_input :: iter_input where
  "unsaved_input = occupied_input\<lparr>imwrite := NotSaved\<rparr>"


definition sample_run :: "iter_input list" where
  "sample_run = [occupied_input, occupied_input, empty_input, empty_input, occupied_input]"

text \<open>The record that \<open>occupied_input\<close> appends to the log.\<close>

definition person_line :: json where
  "person_line =
     JObject
       [(''event'', JString ''Object ENTERED red zone''),
        (''timestamp'', JString ''2024-03-07 09:05:42''),
        (''objects'',
         JArray
           [JObject
              [(''name'', JString ''person''),
               (''confidence'', JReal (9 / 10)),
               (''coords'', JArray [JInt 300, JInt 200, JInt 350, JInt 250])]])]"

text \<open>The state after \<open>occupied_input\<close> from the start.\<close>

definition occupied_state :: state where
  "occupied_state =
     \<lparr>object_in_zone = True, alert_active = True, cleared_printed = False,
      log_file = [person_line],
      snapshots = [''redzone_capture_090542.jpg''],
      console = [''[ALERT] Object entered red zone! Snapshot saved: redzone_capture_090542.jpg''],
      released = 0\<rparr>"

text \<open>
  Two boxes inside the zone whose confidences are not whole hundredths: \<open>0.876\<close>, and
  \<open>0.625\<close>, which lies halfway between \<open>0.62\<close> and \<open>0.63\<close>; the line their frame appends
  to the log, and the record read back from it.
\<close>

definition dog_box :: box where
  "dog_box =
     \<lparr>bx1 = 210, by1 = 160, bx2 = 300, by2 = 340, conf = 876 / 1000,
      label = ''dog'', seen = sample_time\<rparr>"

definition light_box :: box where
  "light_box =
     \<lparr>bx1 = 220, by1 = 170, bx2 = 320, by2 = 330, conf = 5 / 8,
      label = ''traffic light'', seen = sample_time\<rparr>"

definition rounding_input :: iter_input where
  "rounding_input =
     \<lparr>frame = Some [[dog_box, weak_box, light_box]], now = sample_time, log_ok = True,
      imwrite = Saved, key = - 1\<rparr>"

definition rounding_text :: string where
  \<open>rounding_text =
     ''{"event": "Object ENTERED red zone", "timestamp": "2024-03-07 09:05:42", '' @
     ''"objects": [{"name": "dog", "confidence": 0.88, "coords": [210, 160, 300, 340]}, '' @
     ''{"name": "traffic light", "confidence": 0.62, "coords": [220, 170, 320, 330]}]}''\<close>

definition rounding_record :: pyval where
  "rounding_record =
     PDict
       [(''event'', PStr ''Object ENTERED red zone''),
        (''timestamp'', PStr ''2024-03-07 09:05:42''),
        (''objects'',
         PList
           [PDict
              [(''name'', PStr ''dog''),
               (''confidence'', PFloat (88 / 100)),
               (''coords'', PList [PInt 210, PInt 160, PInt 300, PInt 340])],
            PDict
              [(''name'', PStr ''traffic light''),
               (''confidence'', PFloat (62 / 100)),
               (''coords'', PList [PInt 220, PInt 170, PInt 320, PInt 330])]])]"

section \<open>Unfolding the definitions\<close>

lemmas sample_defs =
  occupied_input_def empty_input_def occupied_state_def person_line_def
  weak_box_def person_box_def sample_time_def

lemmas run_defs =
  initial_def iteration_def entry_exit_def detections_in_zone_def process_box_def
  RED_ZONE_def CONFIDENCE_THRESHOLD_def center_def inside_zone_def entry_def
  alert_def exit_event_def alert_object_def snapshot_name_def strftime_hms_def
  strftime_ymd_hms_def pad2_def pad4_def digit_def round2_def Let_def
  final_state_def events_def kind_of_def json_get_def objects_of_def qualifies_def

lemmas text_defs =
  json_text.simps join.simps member_text_def quoted_def escape_def quote_char_def
  backslash_def show_int_def float_repr_def fraction_text_def

section \<open>The zone filter\<close>

lemma process_box_qualifies:
  "process_box z thr acc b = (if qualifies z thr b then acc @ [entry b] else acc)"
  by (simp add: process_box_def qualifies_def inside_zone_def split: prod.splits)

lemma boxes_loop_filter:
  "boxes_loop z thr acc bs = acc @ map entry (filter (qualifies z thr) bs)"
  by (induction bs arbitrary: acc) (simp_all add: process_box_qualifies)

lemma results_loop_filter:
  "results_loop z thr acc rs = acc @ map entry (filter (qualifies z thr) (concat rs))"
  by (induction rs arbitrary: acc) (simp_all add: boxes_loop_filter)

lemma detections_in_zone_filter:
  "detections_in_zone z thr rs = map entry (filter (qualifies z thr) (concat rs))"
  by (simp add: detections_in_zone_def results_loop_filter)

text \<open>
  Claim C2. For every box, every zone and every threshold, the filter step appends the
  box's entry to the list exactly when the box qualifies: its confidence is at least
  the threshold (equal passes, strictly below is dropped) and its centre lies in the
  zone, all four bounds included. Otherwise the list is left as it is. In particular a
  box at or above the threshold whose centre is the corner \<open>(200, 150)\<close> of the default
  zone is appended.
\<close>

theorem zone_filter_qualifies:
  "process_box z thr acc b = (if qualifies z thr b then acc @ [entry b] else acc) \<and>
   (process_box z thr acc b = acc @ [entry b] \<longleftrightarrow>
      thr \<le> conf b \<and>
      zx1 z \<le> fst (center b) \<and> fst (center b) \<le> zx2 z \<and>
      zy1 z \<le> snd (center b) \<and> snd (center b) \<le> zy2 z) \<and>
   (conf b < thr \<longrightarrow> process_box z thr acc b = acc) \<and>
   (thr \<le> conf b \<and> center b = (200, 150) \<longrightarrow>
      process_box RED_ZONE thr acc b = acc @ [entry b])"
  by (auto simp add: process_box_qualifies qualifies_def RED_ZONE_def)

theorem zone_filter_qualifies_witness:
  "CONFIDENCE_THRESHOLD \<le> conf corner_box \<and> center corner_box = (200, 150) \<and>
   process_box RED_ZONE CONFIDENCE_THRESHOLD [entry person_box] corner_box =
     [entry person_box, entry corner_box] \<and>
   conf weak_box < CONFIDENCE_THRESHOLD \<and>
   process_box RED_ZONE CONFIDENCE_THRESHOLD [entry person_box] weak_box = [entry person_box]"
proof -
  have corner: "CONFIDENCE_THRESHOLD \<le> conf corner_box \<and> center corner_box = (200, 150)"
    by (simp add: corner_box_def center_def)
  have weak: "conf weak_box < CONFIDENCE_THRESHOLD"
    by (simp add: weak_box_def CONFIDENCE_THRESHOLD_def)
  from zone_filter_qualifies [of RED_ZONE CONFIDENCE_THRESHOLD "[entry person_box]" corner_box] corner
  have kept: "process_box RED_ZONE CONFIDENCE_THRESHOLD [entry person_box] corner_box =
                [entry person_box] @ [entry corner_box]"
    by blast
  from zone_filter_qualifies [of RED_ZONE CONFIDENCE_THRESHOLD "[entry person_box]" weak_box] weak
  have dropped: "process_box RED_ZONE CONFIDENCE_THRESHOLD [entry person_box] weak_box = [entry person_box]"
    by blast
  from kept dropped corner weak show ?thesis by simp
qed

lemma div_trunc_same: "0 \<le> a \<or> even a \<Longrightarrow> a div 2 = trunc_div a 2"
  unfolding trunc_div_def sgn_if abs_if by (auto; presburger)

lemma div_trunc_less: "a < 0 \<Longrightarrow> odd a \<Longrightarrow> a div 2 = trunc_div a 2 - 1"
  unfolding trunc_div_def sgn_if abs_if by (auto; presburger)

lemma floor_half: "\<lfloor>(of_int a :: rat) / 2\<rfloor> = a div 2"
  using floor_divide_of_int_eq [of a 2, where ?'a = rat] by simp

text \<open>
  Claim C8, as stated, fails: the centre is not the truncated quotient when a
  coordinate sum is negative and odd. For the box with \<open>x1 = -2\<close> and \<open>x2 = -1\<close> the
  sum is \<open>-3\<close>; line 74 gives \<open>-2\<close>, truncation toward zero gives \<open>-1\<close>.
\<close>

theorem center_truncates_counterexample:
  "fst (center negative_box) \<noteq> trunc_div (bx1 negative_box + bx2 negative_box) 2 \<and>
   fst (center negative_box) = - 2 \<and>
   trunc_div (bx1 negative_box + bx2 negative_box) 2 = - 1"
  by (simp add: center_def trunc_div_def negative_box_def)

text \<open>
  Claim C8, amended. For every box with integer corners, the centre is the floor
  (rounding toward minus infinity) of half of \<open>x1 + x2\<close> and of half of \<open>y1 + y2\<close>.
  This is the truncated quotient whenever the sum is non-negative or even, and one
  less than the truncated quotient when the sum is negative and odd.
\<close>

theorem center_floor_division:
  "center b =
     (\<lfloor>(of_int (bx1 b + bx2 b) :: rat) / 2\<rfloor>, \<lfloor>(of_int (by1 b + by2 b) :: rat) / 2\<rfloor>) \<and>
   (0 \<le> bx1 b + bx2 b \<or> even (bx1 b + bx2 b) \<longrightarrow>
      fst (center b) = trunc_div (bx1 b + bx2 b) 2) \<and>
   (0 \<le> by1 b + by2 b \<or> even (by1 b + by2 b) \<longrightarrow>
      snd (center b) = trunc_div (by1 b + by2 b) 2) \<and>
   (bx1 b + bx2 b < 0 \<and> odd (bx1 b + bx2 b) \<longrightarrow>
      fst (center b) = trunc_div (bx1 b + bx2 b) 2 - 1) \<and>
   (by1 b + by2 b < 0 \<and> odd (by1 b + by2 b) \<longrightarrow>
      snd (center b) = trunc_div (by1 b + by2 b) 2 - 1)"
  by (simp add: center_def floor_half div_trunc_same div_trunc_less del: of_int_add)

theorem center_floor_division_witness:
  "bx1 negative_box + bx2 negative_box < 0 \<and> odd (bx1 negative_box + bx2 negative_box) \<and>
   0 \<le> by1 negative_box + by2 negative_box \<and>
   fst (center negative_box) = trunc_div (bx1 negative_box + bx2 negative_box) 2 - 1 \<and>
   snd (center negative_box) = trunc_div (by1 negative_box + by2 negative_box) 2 \<and>
   center negative_box = (- 2, 0) \<and>
   0 \<le> bx1 flipped_box + bx2 flipped_box \<and>
   by1 flipped_box + by2 flipped_box < 0 \<and> odd (by1 flipped_box + by2 flipped_box) \<and>
   fst (center flipped_box) = trunc_div (bx1 flipped_box + bx2 flipped_box) 2 \<and>
   snd (center flipped_box) = trunc_div (by1 flipped_box + by2 flipped_box) 2 - 1 \<and>
   center flipped_box = (0, - 2)"
proof -
  have sums: "bx1 negative_box + bx2 negative_box = - 3" "by1 negative_box + by2 negative_box = 1"
    by (simp_all add: negative_box_def)
  have c: "center negative_box = (- 2, 0)"
    by (simp add: center_def negative_box_def)
  have sums': "bx1 flipped_box + bx2 flipped_box = 1" "by1 flipped_box + by2 flipped_box = - 3"
    by (simp_all add: flipped_box_def negative_box_def)
  have c': "center flipped_box = (0, - 2)"
    by (simp add: center_def flipped_box_def negative_box_def)
  from center_floor_division [of negative_box] sums c
  have left: "fst (center negative_box) = trunc_div (bx1 negative_box + bx2 negative_box) 2 - 1 \<and>
              snd (center negative_box) = trunc_div (by1 negative_box + by2 negative_box) 2"
    by simp
  from center_floor_division [of flipped_box] sums' c'
  have above: "fst (center flipped_box) = trunc_div (bx1 flipped_box + bx2 flipped_box) 2 \<and>
               snd (center flipped_box) = trunc_div (by1 flipped_box + by2 flipped_box) 2 - 1"
    by simp
  from sums sums' c c' left above show ?thesis by simp
qed

text \<open>
  Claim C9. The list of qualifying detections of a frame is the list of entries of the
  qualifying boxes, taken from the detector's output in its order: the qualifying
  boxes are a subsequence of that output, the labels and corner coordinates of the
  detections are a subsequence of those of the output, and the \<^verbatim>\<open>objects\<close> array of an
  entry record holds one object per qualifying box, in the same order.
\<close>

theorem zone_filter_subsequence:
  "detections_in_zone z thr rs = map entry (filter (qualifies z thr) (concat rs)) \<and>
   subseq (filter (qualifies z thr) (concat rs)) (concat rs) \<and>
   subseq (map (\<lambda>d. (name d, coords d)) (detections_in_zone z thr rs))
          (map (\<lambda>b. (label b, (bx1 b, by1 b, bx2 b, by2 b))) (concat rs)) \<and>
   objects_of (json_dumps (alert t (detections_in_zone z thr rs))) =
     Some (map (\<lambda>b. json_dumps (alert_object (entry b))) (filter (qualifies z thr) (concat rs)))"
proof (intro conjI)
  show "detections_in_zone z thr rs = map entry (filter (qualifies z thr) (concat rs))"
    by (rule detections_in_zone_filter)
  show "subseq (filter (qualifies z thr) (concat rs)) (concat rs)"
    by simp
  have "map (\<lambda>d. (name d, coords d)) (detections_in_zone z thr rs) =
        map (\<lambda>b. (label b, (bx1 b, by1 b, bx2 b, by2 b))) (filter (qualifies z thr) (concat rs))"
    by (simp add: detections_in_zone_filter entry_def comp_def)
  moreover have
    "subseq (map (\<lambda>b. (label b, (bx1 b, by1 b, bx2 b, by2 b))) (filter (qualifies z thr) (concat rs)))
            (map (\<lambda>b. (label b, (bx1 b, by1 b, bx2 b, by2 b))) (concat rs))"
    by (rule subseq_map) simp
  ultimately show
    "subseq (map (\<lambda>d. (name d, coords d)) (detections_in_zone z thr rs))
            (map (\<lambda>b. (label b, (bx1 b, by1 b, bx2 b, by2 b))) (concat rs))"
    by (simp only:)
  show "objects_of (json_dumps (alert t (detections_in_zone z thr rs))) =
     Some (map (\<lambda>b. json_dumps (alert_object (entry b))) (filter (qualifies z thr) (concat rs)))"
    by (simp add: detections_in_zone_filter objects_of_def json_get_def alert_def comp_def)
qed

theorem zone_filter_subsequence_witness:
  "detections_in_zone RED_ZONE CONFIDENCE_THRESHOLD [[weak_box, person_box], [corner_box]] =
     [entry person_box, entry corner_box] \<and>
   filter (qualifies RED_ZONE CONFIDENCE_THRESHOLD) (concat [[weak_box, person_box], [corner_box]]) =
     [person_box, corner_box]"
proof -
  have "filter (qualifies RED_ZONE CONFIDENCE_THRESHOLD) (concat [[weak_box, person_box], [corner_box]]) =
          [person_box, corner_box]"
    by (simp add: sample_defs corner_box_def run_defs)
  with zone_filter_subsequence [of RED_ZONE CONFIDENCE_THRESHOLD "[[weak_box, person_box], [corner_box]]"]
  show ?thesis by simp
qed

section \<open>The entry/exit logic, branch by branch\<close>

lemma entry_exit_idle:
  "(ds \<noteq> []) = alert_active s \<Longrightarrow> entry_exit s i ds = Next (s\<lparr>object_in_zone := ds \<noteq> []\<rparr>)"
  by (auto simp: entry_exit_def Let_def)

lemma entry_exit_log_fails:
  "(ds \<noteq> []) \<noteq> alert_active s \<Longrightarrow> \<not> log_ok i \<Longrightarrow>
   entry_exit s i ds =
     Uncaught (if ds \<noteq> []
               then s\<lparr>object_in_zone := True, alert_active := True, cleared_printed := False\<rparr>
               else s\<lparr>object_in_zone := False\<rparr>)"
  by (auto simp: entry_exit_def Let_def)

lemma entry_exit_enter:
  "ds \<noteq> [] \<Longrightarrow> \<not> alert_active s \<Longrightarrow> log_ok i \<Longrightarrow>
   entry_exit s i ds =
     (let s1 = s\<lparr>object_in_zone := True, alert_active := True, cleared_printed := False,
                  log_file := log_file s @ [json_dumps (alert (now i) ds)]\<rparr>;
          msg = ''[ALERT] Object entered red zone! Snapshot saved: '' @ snapshot_name (now i)
      in case imwrite i of
           ImwriteError \<Rightarrow> Uncaught s1
         | Saved \<Rightarrow> Next (s1\<lparr>snapshots := snapshots s @ [snapshot_name (now i)],
                              console := console s @ [msg]\<rparr>)
         | NotSaved \<Rightarrow> Next (s1\<lparr>console := console s @ [msg]\<rparr>))"
  by (auto simp: entry_exit_def Let_def split: imwrite_result.splits)

lemma entry_exit_leave:
  "ds = [] \<Longrightarrow> alert_active s \<Longrightarrow> log_ok i \<Longrightarrow>
   entry_exit s i ds =
     Next (s\<lparr>object_in_zone := False,
             log_file := log_file s @ [json_dumps (exit_event (now i))],
             console := console s @ [''[CLEARED] Object left red zone.''],
             alert_active := False\<rparr>)"
  by (auto simp: entry_exit_def Let_def)

lemma entry_exit_no_break: "entry_exit s i ds \<noteq> Break s'"
  by (auto simp: entry_exit_def Let_def split: if_splits imwrite_result.splits)

lemma run_loop_append:
  "run_loop s (xs @ ys) =
     (case run_loop s xs of
        Running s' \<Rightarrow> run_loop s' ys
      | Exited s' \<Rightarrow> Exited s'
      | Crashed s' \<Rightarrow> Crashed s')"
  by (induction xs arbitrary: s) (simp_all split: control.splits)

lemma kind_of_alert: "kind_of (json_dumps (alert t ds)) = Some ENTER"
  by (simp add: kind_of_def json_get_def alert_def)

lemma kind_of_exit_event: "kind_of (json_dumps (exit_event t)) = Some LEAVE"
  by (simp add: kind_of_def json_get_def exit_event_def)

lemma objects_of_alert:
  "objects_of (json_dumps (alert t ds)) = Some (map (\<lambda>d. json_dumps (alert_object d)) ds)"
  by (simp add: objects_of_def json_get_def alert_def)

section \<open>Alternation of the logged events\<close>

lemma other_other: "other (other e) = e"
  by (cases e) simp_all

lemma other_neq: "other e \<noteq> e"
  by (cases e) simp_all

lemma alternates_snoc:
  "alternates e xs \<Longrightarrow> alternates e (xs @ [Some (if even (length xs) then e else other e)])"
proof (induction xs arbitrary: e)
  case Nil
  then show ?case by simp
next
  case (Cons x xs)
  from Cons.prems have x: "x = Some e" and rest: "alternates (other e) xs" by simp_all
  from Cons.IH [OF rest] x show ?case by (cases "even (length xs)") (simp_all add: other_other)
qed

lemma alternates_count:
  "alternates e xs \<Longrightarrow>
     count_list xs (Some e) = (length xs + 1) div 2 \<and>
     count_list xs (Some (other e)) = length xs div 2"
proof (induction xs arbitrary: e)
  case Nil
  then show ?case by simp
next
  case (Cons x xs)
  from Cons.prems have x: "x = Some e" and rest: "alternates (other e) xs" by simp_all
  from Cons.IH [OF rest] have
    "count_list xs (Some (other e)) = (length xs + 1) div 2"
    and "count_list xs (Some e) = length xs div 2"
    by (simp_all add: other_other)
  with x show ?case using other_neq [of e] by auto
qed

lemma events_append_enter:
  assumes "alternates ENTER (events s)" and "even (length (log_file s))"
  shows "alternates ENTER (map kind_of (log_file s) @ [Some ENTER])"
  using alternates_snoc [OF assms(1)] assms(2) by (simp add: events_def)

lemma events_append_leave:
  assumes "alternates ENTER (events s)" and "odd (length (log_file s))"
  shows "alternates ENTER (map kind_of (log_file s) @ [Some LEAVE])"
  using alternates_snoc [OF assms(1)] assms(2) by (simp add: events_def)

text \<open>
  The invariant at the head of the loop: the log alternates from \<open>ENTER\<close>, and the zone
  is occupied exactly when the log has an odd number of lines. An iteration keeps it;
  when it ends with an exception the log still alternates, and the parity still
  matches unless it was the write to the log that failed.
\<close>

lemma entry_exit_paired:
  assumes alt: "alternates ENTER (events s)"
    and par: "alert_active s \<longleftrightarrow> odd (length (log_file s))"
  shows "case entry_exit s i ds of
           Next s' \<Rightarrow> alternates ENTER (events s') \<and> (alert_active s' \<longleftrightarrow> odd (length (log_file s')))
         | Break s' \<Rightarrow> alternates ENTER (events s') \<and> (alert_active s' \<longleftrightarrow> odd (length (log_file s')))
         | Uncaught s' \<Rightarrow> alternates ENTER (events s') \<and>
                           (log_ok i \<longrightarrow> (alert_active s' \<longleftrightarrow> odd (length (log_file s'))))"
proof (cases "(ds \<noteq> []) = alert_active s")
  case True
  with alt par show ?thesis by (simp add: entry_exit_idle events_def)
next
  case due: False
  show ?thesis
  proof (cases "log_ok i")
    case False
    with due alt show ?thesis by (simp add: entry_exit_log_fails events_def)
  next
    case ok: True
    show ?thesis
    proof (cases "ds = []")
      case True
      with due have "alert_active s" by simp
      with True ok par events_append_leave [OF alt] show ?thesis
        by (simp add: entry_exit_leave events_def kind_of_exit_event)
    next
      case False
      with due have "\<not> alert_active s" by simp
      with False ok par events_append_enter [OF alt] show ?thesis
        by (cases "imwrite i") (simp_all add: entry_exit_enter events_def kind_of_alert)
    qed
  qed
qed

lemma iteration_paired:
  assumes alt: "alternates ENTER (events s)"
    and par: "alert_active s \<longleftrightarrow> odd (length (log_file s))"
  shows "case iteration s i of
           Next s' \<Rightarrow> alternates ENTER (events s') \<and> (alert_active s' \<longleftrightarrow> odd (length (log_file s')))
         | Break s' \<Rightarrow> alternates ENTER (events s') \<and> (alert_active s' \<longleftrightarrow> odd (length (log_file s')))
         | Uncaught s' \<Rightarrow> alternates ENTER (events s') \<and>
                           (log_ok i \<longrightarrow> (alert_active s' \<longleftrightarrow> odd (length (log_file s'))))"
proof (cases "frame i")
  case None
  with alt par show ?thesis by (simp add: iteration_def events_def)
next
  case (Some rs)
  from entry_exit_paired [OF alt par, of i "detections_in_zone RED_ZONE CONFIDENCE_THRESHOLD rs"] Some
  show ?thesis by (auto simp: iteration_def split: control.splits)
qed

lemma run_loop_paired:
  assumes "alternates ENTER (events s)"
    and "alert_active s \<longleftrightarrow> odd (length (log_file s))"
  shows "alternates ENTER (events (final_state (run_loop s ins))) \<and>
         ((\<forall>i\<in>set ins. log_ok i) \<longrightarrow>
            (alert_active (final_state (run_loop s ins)) \<longleftrightarrow>
             odd (length (log_file (final_state (run_loop s ins))))))"
  using assms
proof (induction ins arbitrary: s)
  case Nil
  then show ?case by (simp add: final_state_def)
next
  case (Cons i ins)
  show ?case
  proof (cases "iteration s i")
    case (Next s')
    with iteration_paired [OF Cons.prems, of i] Cons.IH [of s'] show ?thesis by simp
  next
    case (Break s')
    with iteration_paired [OF Cons.prems, of i] show ?thesis by (simp add: final_state_def events_def)
  next
    case (Uncaught s')
    with iteration_paired [OF Cons.prems, of i] show ?thesis by (simp add: final_state_def)
  qed
qed

text \<open>
  Claim C1. Whatever the inputs of the successive iterations (and so whatever the
  sequence of per-frame occupancies), the events the run has logged from the initial
  state, where the zone is empty, alternate strictly, \<open>ENTER\<close>, \<open>LEAVE\<close>, \<open>ENTER\<close>, ...,
  starting with \<open>ENTER\<close>. When every write to the log works, the number of \<open>ENTER\<close>
  events equals the number of \<open>LEAVE\<close> events if the run ends with the zone empty, and
  is one more if it ends with the zone occupied.
\<close>

theorem events_alternate:
  "alternates ENTER (events (final_state (run_loop initial ins))) \<and>
   ((\<forall>i\<in>set ins. log_ok i) \<longrightarrow>
      count_list (events (final_state (run_loop initial ins))) (Some ENTER) =
      count_list (events (final_state (run_loop initial ins))) (Some LEAVE) +
      (if alert_active (final_state (run_loop initial ins)) then 1 else 0))"
proof -
  let ?s = "final_state (run_loop initial ins)"
  have init: "alternates ENTER (events initial)"
    "alert_active initial \<longleftrightarrow> odd (length (log_file initial))"
    by (simp_all add: initial_def events_def)
  from run_loop_paired [OF init, of ins] have alt: "alternates ENTER (events ?s)"
    and par: "(\<forall>i\<in>set ins. log_ok i) \<longrightarrow> (alert_active ?s \<longleftrightarrow> odd (length (log_file ?s)))"
    by simp_all
  from alternates_count [OF alt] have
    "count_list (events ?s) (Some ENTER) = (length (log_file ?s) + 1) div 2"
    "count_list (events ?s) (Some LEAVE) = length (log_file ?s) div 2"
    by (simp_all add: events_def)
  with alt par show ?thesis by (auto elim: oddE)
qed

theorem events_alternate_witness:
  "map log_ok sample_run = [True, True, True, True, True] \<and>
   events (final_state (run_loop initial sample_run)) = [Some ENTER, Some LEAVE, Some ENTER] \<and>
   alert_active (final_state (run_loop initial sample_run)) \<and>
   alternates ENTER (events (final_state (run_loop initial sample_run))) \<and>
   count_list (events (final_state (run_loop initial sample_run))) (Some ENTER) =
     count_list (events (final_state (run_loop initial sample_run))) (Some LEAVE) + 1"
proof -
  have ok: "map log_ok sample_run = [True, True, True, True, True]"
    by (simp add: sample_run_def sample_defs)
  have all_ok: "\<forall>i\<in>set sample_run. log_ok i"
    by (simp add: sample_run_def sample_defs)
  have ev: "events (final_state (run_loop initial sample_run)) = [Some ENTER, Some LEAVE, Some ENTER]"
    by (simp add: sample_run_def sample_defs run_defs)
  have occ: "alert_active (final_state (run_loop initial sample_run))"
    by (simp add: sample_run_def sample_defs run_defs)
  from events_alternate [of sample_run] all_ok occ ok ev show ?thesis by simp
qed

section \<open>Occupancy after an evaluated frame\<close>

lemma entry_exit_occupancy:
  "entry_exit s i ds = Next s' \<Longrightarrow>
     alert_active s' = (ds \<noteq> []) \<and> object_in_zone s' = (ds \<noteq> [])"
  by (auto simp: entry_exit_def Let_def split: if_splits imwrite_result.splits)

lemma iteration_occupancy:
  assumes "frame i = Some rs"
    and "iteration s i = Next s' \<or> iteration s i = Break s'"
  shows "alert_active s' = (detections_in_zone RED_ZONE CONFIDENCE_THRESHOLD rs \<noteq> []) \<and>
         object_in_zone s' = (detections_in_zone RED_ZONE CONFIDENCE_THRESHOLD rs \<noteq> [])"
  using assms
  by (auto simp: iteration_def entry_exit_no_break split: control.splits if_splits
           dest: entry_exit_occupancy)

lemma iteration_agree:
  assumes "alert_active s = object_in_zone s"
    and "iteration s i = Next s' \<or> iteration s i = Break s'"
  shows "alert_active s' = object_in_zone s'"
proof (cases "frame i")
  case None
  with assms show ?thesis by (auto simp: iteration_def)
next
  case (Some rs)
  from iteration_occupancy [OF Some assms(2)] show ?thesis by simp
qed

lemma run_loop_agree:
  assumes "alert_active s = object_in_zone s"
    and "run_loop s ins = Running s' \<or> run_loop s ins = Exited s'"
  shows "alert_active s' = object_in_zone s'"
  using assms
proof (induction ins arbitrary: s)
  case Nil
  then show ?case by simp
next
  case (Cons i ins)
  show ?case
  proof (cases "iteration s i")
    case (Next s1)
    with Cons.prems iteration_agree [of s i s1] Cons.IH [of s1] show ?thesis by simp
  next
    case (Break s1)
    with Cons.prems iteration_agree [of s i s1] show ?thesis by auto
  next
    case (Uncaught s1)
    with Cons.prems show ?thesis by simp
  qed
qed

lemma run_loop_snoc_Running:
  assumes "run_loop s (ins @ [i]) = Running s'"
  shows "\<exists>s0. run_loop s ins = Running s0 \<and> iteration s0 i = Next s'"
  using assms by (auto simp: run_loop_append split: outcome.splits control.splits)

lemma iteration_Next_frame: "iteration s i = Next s' \<Longrightarrow> \<exists>rs. frame i = Some rs"
  by (cases "frame i") (simp_all add: iteration_def)

text \<open>
  Claim C3. After every iteration that evaluates a frame and runs to its end, from
  any state, the zone is recorded as occupied exactly when that frame had at least one
  qualifying detection. So it is for the state after the last of any sequence of
  iterations from the initial state; and in every state the loop reaches from the
  initial state, or leaves by a \<^verbatim>\<open>break\<close>, \<^verbatim>\<open>alert_active\<close> equals \<^verbatim>\<open>object_in_zone\<close>,
  the occupancy of the frame evaluated last.
\<close>

theorem occupancy_matches_last_frame:
  "(frame i = Some rs \<and> (iteration s i = Next s' \<or> iteration s i = Break s') \<longrightarrow>
      (alert_active s' \<longleftrightarrow> detections_in_zone RED_ZONE CONFIDENCE_THRESHOLD rs \<noteq> [])) \<and>
   (run_loop initial (ins @ [i]) = Running s' \<longrightarrow>
      (\<exists>rs. frame i = Some rs \<and>
         (alert_active s' \<longleftrightarrow> detections_in_zone RED_ZONE CONFIDENCE_THRESHOLD rs \<noteq> []))) \<and>
   (run_loop initial ins = Running s' \<or> run_loop initial ins = Exited s' \<longrightarrow>
      alert_active s' = object_in_zone s')"
proof (intro conjI impI)
  assume "frame i = Some rs \<and> (iteration s i = Next s' \<or> iteration s i = Break s')"
  then show "alert_active s' \<longleftrightarrow> detections_in_zone RED_ZONE CONFIDENCE_THRESHOLD rs \<noteq> []"
    using iteration_occupancy [of i rs s s'] by simp
next
  assume "run_loop initial (ins @ [i]) = Running s'"
  from run_loop_snoc_Running [OF this] obtain s0 where step: "iteration s0 i = Next s'" by blast
  from iteration_Next_frame [OF step] obtain rs where rs: "frame i = Some rs" by blast
  from iteration_occupancy [OF rs, of s0 s'] step rs
  show "\<exists>rs. frame i = Some rs \<and>
         (alert_active s' \<longleftrightarrow> detections_in_zone RED_ZONE CONFIDENCE_THRESHOLD rs \<noteq> [])"
    by simp
next
  assume "run_loop initial ins = Running s' \<or> run_loop initial ins = Exited s'"
  then show "alert_active s' = object_in_zone s'"
    using run_loop_agree [of initial ins s'] by (simp add: initial_def)
qed

theorem occupancy_matches_last_frame_witness:
  "frame occupied_input = Some [[weak_box, person_box]] \<and>
   iteration initial occupied_input = Next occupied_state \<and>
   run_loop initial ([] @ [occupied_input]) = Running occupied_state \<and>
   run_loop initial [occupied_input] = Running occupied_state \<and>
   alert_active occupied_state \<and>
   detections_in_zone RED_ZONE CONFIDENCE_THRESHOLD [[weak_box, person_box]] \<noteq> [] \<and>
   alert_active occupied_state = object_in_zone occupied_state"
proof -
  have fr: "frame occupied_input = Some [[weak_box, person_box]]"
    by (simp add: sample_defs)
  have step: "iteration initial occupied_input = Next occupied_state"
    by (simp add: sample_defs run_defs)
  then have run: "run_loop initial ([] @ [occupied_input]) = Running occupied_state"
    by simp
  then have run': "run_loop initial [occupied_input] = Running occupied_state"
    by simp
  have occ: "alert_active occupied_state"
    by (simp add: occupied_state_def)
  from occupancy_matches_last_frame
    [of occupied_input "[[weak_box, person_box]]" initial occupied_state "[]"] fr step run
  have "alert_active occupied_state \<longleftrightarrow>
          detections_in_zone RED_ZONE CONFIDENCE_THRESHOLD [[weak_box, person_box]] \<noteq> []"
    by blast
  with occ have some: "detections_in_zone RED_ZONE CONFIDENCE_THRESHOLD [[weak_box, person_box]] \<noteq> []"
    by blast
  from occupancy_matches_last_frame
    [of occupied_input "[[weak_box, person_box]]" initial occupied_state "[occupied_input]"] run'
  have agree: "alert_active occupied_state = object_in_zone occupied_state"
    by blast
  from fr step run run' occ some agree show ?thesis by blast
qed

section \<open>Failure to read a frame\<close>

lemma entry_exit_released: "released (control_state (entry_exit s i ds)) = released s"
  by (auto simp: entry_exit_def Let_def split: imwrite_result.splits)

lemma iteration_released: "released (control_state (iteration s i)) = released s"
proof (cases "frame i")
  case None
  then show ?thesis by (simp add: iteration_def)
next
  case (Some rs)
  with entry_exit_released [of s i "detections_in_zone RED_ZONE CONFIDENCE_THRESHOLD rs"]
  show ?thesis by (auto simp: iteration_def split: control.splits)
qed

lemma run_loop_Running_released: "run_loop s ins = Running s' \<Longrightarrow> released s' = released s"
proof (induction ins arbitrary: s)
  case Nil
  then show ?case by simp
next
  case (Cons i ins)
  then show ?case using iteration_released [of s i]
    by (auto split: control.splits)
qed

text \<open>
  Claim C5. Let the loop have reached a state from the initial one, and let the next
  read return no frame. Then that iteration is a \<^verbatim>\<open>break\<close> that changes nothing but the
  console (no flag, so no evaluation and no transition; no line of the log); the loop
  ends, whatever inputs would follow; the script exits normally with the camera
  released once; and the log is the one of before the failure.
\<close>

theorem acquisition_failure_ends_loop:
  assumes "frame i = None" and "run_loop initial pre = Running s"
  shows "iteration s i = Break (s\<lparr>console := console s @ [''Failed to capture frame.'']\<rparr>) \<and>
         run_loop initial (pre @ i # rest) =
           Exited (s\<lparr>console := console s @ [''Failed to capture frame.''], released := 1\<rparr>) \<and>
         released (final_state (run_loop initial (pre @ i # rest))) = 1 \<and>
         log_file (final_state (run_loop initial (pre @ i # rest))) = log_file s \<and>
         alert_active (final_state (run_loop initial (pre @ i # rest))) = alert_active s"
proof -
  from run_loop_Running_released [OF assms(2)] have "released s = 0" by (simp add: initial_def)
  with assms show ?thesis by (simp add: run_loop_append iteration_def final_state_def)
qed

theorem acquisition_failure_ends_loop_witness:
  "frame no_frame_input = None \<and>
   run_loop initial [occupied_input] = Running occupied_state \<and>
   run_loop initial ([occupied_input] @ no_frame_input # [empty_input, occupied_input]) =
     Exited (occupied_state\<lparr>console := console occupied_state @ [''Failed to capture frame.''],
                            released := 1\<rparr>) \<and>
   released (final_state
     (run_loop initial ([occupied_input] @ no_frame_input # [empty_input, occupied_input]))) = 1 \<and>
   log_file (final_state
     (run_loop initial ([occupied_input] @ no_frame_input # [empty_input, occupied_input]))) =
     [person_line]"
proof -
  have fr: "frame no_frame_input = None"
    by (simp add: no_frame_input_def)
  have run: "run_loop initial [occupied_input] = Running occupied_state"
    by (simp add: sample_defs run_defs)
  have lg: "log_file occupied_state = [person_line]"
    by (simp add: occupied_state_def)
  note th = acquisition_failure_ends_loop [OF fr run, of "[empty_input, occupied_input]"]
  from th have ex:
    "run_loop initial ([occupied_input] @ no_frame_input # [empty_input, occupied_input]) =
       Exited (occupied_state\<lparr>console := console occupied_state @ [''Failed to capture frame.''],
                              released := 1\<rparr>)"
    by blast
  from th have rel:
    "released (final_state
       (run_loop initial ([occupied_input] @ no_frame_input # [empty_input, occupied_input]))) = 1"
    by blast
  from th have
    "log_file (final_state
       (run_loop initial ([occupied_input] @ no_frame_input # [empty_input, occupied_input]))) =
       log_file occupied_state"
    by blast
  with lg have same:
    "log_file (final_state
       (run_loop initial ([occupied_input] @ no_frame_input # [empty_input, occupied_input]))) =
       [person_line]"
    by (simp only:)
  from fr run ex rel same show ?thesis by blast
qed

section \<open>Failure to write the log\<close>




section \<open>The entry record and the snapshot\<close>

lemma iteration_enter_log:
  assumes "frame i = Some rs"
    and "ds = detections_in_zone RED_ZONE CONFIDENCE_THRESHOLD rs"
    and "ds \<noteq> []" and "\<not> alert_active s" and "log_ok i"
  shows "log_file (control_state (iteration s i)) = log_file s @ [json_dumps (alert (now i) ds)]"
  using assms by (cases "imwrite i") (simp_all add: iteration_def entry_exit_enter Let_def)

text \<open>
  Claim C6, as stated, fails in its second half: a snapshot that could not be written
  is not reported. When \<^verbatim>\<open>cv2.imwrite\<close> returns \<^verbatim>\<open>False\<close> on the frame where the person
  enters, the iteration ends normally; the one line printed says the snapshot was
  saved, and there is no snapshot.
\<close>

theorem snapshot_failure_reported_counterexample:
  "iteration initial unsaved_input =
     Next \<lparr>object_in_zone = True, alert_active = True, cleared_printed = False,
           log_file = [person_line],
           snapshots = [],
           console =
             [''[ALERT] Object entered red zone! Snapshot saved: redzone_capture_090542.jpg''],
           released = 0\<rparr>"
  by (simp add: unsaved_input_def sample_defs run_defs)

text \<open>
  Claim C6, amended. On an entry, the line is appended to the log before the snapshot
  is written, so it is appended whatever becomes of the snapshot. A snapshot that
  fails by \<^verbatim>\<open>cv2.imwrite\<close> returning \<^verbatim>\<open>False\<close> is not reported: the iteration ends
  without an exception, it prints the same line as when the snapshot is saved, and the
  state differs from that one only in the missing snapshot file.
\<close>

theorem snapshot_failure_keeps_log:
  assumes "frame i = Some rs"
    and "ds = detections_in_zone RED_ZONE CONFIDENCE_THRESHOLD rs"
    and "ds \<noteq> []" and "\<not> alert_active s" and "log_ok i"
  shows "log_file (control_state (iteration s i)) = log_file s @ [json_dumps (alert (now i) ds)] \<and>
         (imwrite i = NotSaved \<longrightarrow>
            (iteration s i = Next (control_state (iteration s i)) \<or>
             iteration s i = Break (control_state (iteration s i))) \<and>
            snapshots (control_state (iteration s i)) = snapshots s \<and>
            console (control_state (iteration s i)) =
              console s @
                [''[ALERT] Object entered red zone! Snapshot saved: '' @ snapshot_name (now i)] \<and>
            control_state (iteration s (i\<lparr>imwrite := Saved\<rparr>)) =
              (control_state (iteration s i))\<lparr>snapshots := snapshots s @ [snapshot_name (now i)]\<rparr>)"
  using assms by (cases "imwrite i") (simp_all add: iteration_def entry_exit_enter Let_def)

theorem snapshot_failure_keeps_log_witness:
  "frame unsaved_input = Some [[weak_box, person_box]] \<and>
   detections_in_zone RED_ZONE CONFIDENCE_THRESHOLD [[weak_box, person_box]] = [entry person_box] \<and>
   \<not> alert_active initial \<and> log_ok unsaved_input \<and> imwrite unsaved_input = NotSaved \<and>
   log_file (control_state (iteration initial unsaved_input)) =
     log_file initial @ [json_dumps (alert (now unsaved_input) [entry person_box])] \<and>
   snapshots (control_state (iteration initial unsaved_input)) = snapshots initial"
proof -
  have fr: "frame unsaved_input = Some [[weak_box, person_box]]"
    by (simp add: unsaved_input_def sample_defs)
  have ds: "detections_in_zone RED_ZONE CONFIDENCE_THRESHOLD [[weak_box, person_box]] = [entry person_box]"
    by (simp add: detections_in_zone_filter) (simp add: sample_defs run_defs)
  have ne: "[entry person_box] \<noteq> []"
    by simp
  have idle: "\<not> alert_active initial"
    by (simp add: initial_def)
  have ok: "log_ok unsaved_input" and unsaved: "imwrite unsaved_input = NotSaved"
    by (simp_all add: unsaved_input_def sample_defs)
  note th = snapshot_failure_keeps_log [OF fr ds [symmetric] ne idle ok]
  from th have logged:
    "log_file (control_state (iteration initial unsaved_input)) =
       log_file initial @ [json_dumps (alert (now unsaved_input) [entry person_box])]"
    by blast
  from th unsaved have none: "snapshots (control_state (iteration initial unsaved_input)) = snapshots initial"
    by blast
  from fr ds idle ok unsaved logged none show ?thesis by blast
qed

section \<open>Numbers in a log line\<close>

lemma digit_code: "(of_char (digit n) :: nat) = 48 + n mod 10"
proof -
  define m where "m = n mod 10"
  have "m < 10" by (simp add: m_def)
  then have "m \<in> {0, 1, 2, 3, 4, 5, 6, 7, 8, 9}" by auto
  then have "(of_char (''0123456789'' ! m) :: nat) = 48 + m" by auto
  then show ?thesis by (simp add: digit_def m_def)
qed

lemma is_digit_digit: "is_digit (digit n)"
  by (simp add: is_digit_def digit_code)

lemma hexdigit_code: "hexval (hexdigit n) = Some (n mod 16)"
proof -
  define m where "m = n mod 16"
  have "m < 16" by (simp add: m_def)
  then have "m \<in> {0, 1, 2, 3, 4, 5, 6, 7, 8, 9, 10, 11, 12, 13, 14, 15}" by simp presburger
  then have "hexval (''0123456789abcdef'' ! m) = Some m" by (auto simp: hexval_def)
  then show ?thesis by (simp add: hexdigit_def m_def)
qed

lemma show_nat_digits: "c \<in> set (show_nat n) \<Longrightarrow> is_digit c"
  by (induction n arbitrary: c rule: show_nat.induct)
     (subst (asm) show_nat.simps, auto simp: is_digit_digit split: if_splits)

lemma show_nat_not_Nil: "show_nat n \<noteq> []"
  by (subst show_nat.simps) simp

lemma digits_value_snoc: "digits_value (ds @ [c]) = 10 * digits_value ds + (of_char c - 48)"
  by (simp add: digits_value_def)

lemma digits_value_show_nat: "digits_value (show_nat n) = n"
proof (induction n rule: show_nat.induct)
  case (1 n)
  show ?case
  proof (cases "n < 10")
    case True
    then show ?thesis
      by (subst show_nat.simps) (simp add: digits_value_def digit_code)
  next
    case False
    with 1 have "digits_value (show_nat (n div 10)) = n div 10" by simp
    with False show ?thesis
      by (subst show_nat.simps) (simp add: digits_value_snoc digit_code)
  qed
qed

lemma takeWhile_digits:
  assumes "\<forall>c\<in>set ds. is_digit c" and "r = [] \<or> \<not> is_digit (hd r)"
  shows "takeWhile is_digit (ds @ r) = ds" and "dropWhile is_digit (ds @ r) = r"
  using assms by (cases r; simp add: takeWhile_append dropWhile_append; fail)+

lemma takeWhile_show_nat:
  assumes "r = [] \<or> \<not> is_digit (hd r)"
  shows "takeWhile is_digit (show_nat n @ r) = show_nat n"
    and "dropWhile is_digit (show_nat n @ r) = r"
  using takeWhile_digits [of "show_nat n" r] assms show_nat_digits by blast+

lemma show_nat_hd: "\<exists>d ds. show_nat n = d # ds \<and> is_digit d"
  using show_nat_not_Nil [of n] show_nat_digits [of _ n] by (cases "show_nat n") auto

lemma is_digit_not_minus: "is_digit c \<Longrightarrow> c \<noteq> CHR ''-''"
  by (auto simp: is_digit_def)

lemma is_digit_not_dot: "\<not> is_digit (CHR ''.'')"
  by (simp add: is_digit_def)

lemma ends_number_case:
  assumes "ends_number r"
  shows "(case r of [] \<Rightarrow> A | c # r2 \<Rightarrow> if c = CHR ''.'' then B c r2 else A) = A"
  using assms by (cases r) (simp_all add: ends_number_def)

lemma ends_number_stop: "ends_number r \<Longrightarrow> r = [] \<or> \<not> is_digit (hd r)"
  by (cases r) (simp_all add: ends_number_def)

lemma scan_number_show_nat:
  assumes "ends_number r"
  shows "scan_number (show_nat k @ r) = Some (JInt (int k), r)"
proof -
  obtain d ds where d: "show_nat k = d # ds" "is_digit d"
    using show_nat_hd by blast
  have neg: "(case show_nat k @ r of [] \<Rightarrow> False | c # _ \<Rightarrow> c = CHR ''-'') = False"
    using d is_digit_not_minus by simp
  note tw = takeWhile_show_nat [OF ends_number_stop [OF assms], of k]
  show ?thesis
    unfolding scan_number_def Let_def neg
    by (simp add: tw show_nat_not_Nil digits_value_show_nat ends_number_case [OF assms])
qed

lemma scan_number_minus:
  assumes "ends_number r"
  shows "scan_number (CHR ''-'' # show_nat k @ r) = Some (JInt (- int k), r)"
proof -
  note tw = takeWhile_show_nat [OF ends_number_stop [OF assms], of k]
  show ?thesis
    unfolding scan_number_def Let_def
    by (simp add: tw show_nat_not_Nil digits_value_show_nat ends_number_case [OF assms])
qed

lemma scan_number_show_int:
  assumes "ends_number r"
  shows "scan_number (show_int n @ r) = Some (JInt n, r)"
proof (cases "n < 0")
  case True
  with scan_number_minus [OF assms, of "nat (- n)"] show ?thesis
    by (simp add: show_int_def)
next
  case False
  with scan_number_show_nat [OF assms, of "nat n"] show ?thesis
    by (simp add: show_int_def)
qed

lemma fraction_text_digits: "\<forall>c\<in>set (fraction_text fr). is_digit c"
  by (simp add: fraction_text_def is_digit_digit)

lemma fraction_text_not_Nil: "fraction_text fr \<noteq> []"
  by (simp add: fraction_text_def)

lemma fraction_text_value:
  assumes "fr < 100"
  shows "(of_nat (digits_value (fraction_text fr)) :: rat) / 10 ^ length (fraction_text fr) =
         of_nat fr / 100"
proof (cases "fr mod 10 = 0")
  case True
  from assms have "fr div 10 < 10" by simp
  then have v: "digits_value [digit (fr div 10)] = fr div 10"
    by (simp add: digits_value_def digit_code)
  from True have "fr = 10 * (fr div 10)" by presburger
  then have "(of_nat fr :: rat) = 10 * of_nat (fr div 10)"
    by (metis of_nat_mult of_nat_numeral)
  with True v show ?thesis by (simp add: fraction_text_def)
next
  case False
  from assms have "fr div 10 < 10" by simp
  then have "digits_value [digit (fr div 10), digit fr] = 10 * (fr div 10) + fr mod 10"
    by (simp add: digits_value_def digit_code)
  then have "digits_value [digit (fr div 10), digit fr] = fr" by simp
  with False show ?thesis by (simp add: fraction_text_def)
qed

lemma float_repr_parts:
  "float_repr x =
     (if x < 0 then [CHR ''-''] else []) @ show_nat (nat \<lfloor>\<bar>x\<bar> * 100\<rfloor> div 100) @ ''.'' @
     fraction_text (nat \<lfloor>\<bar>x\<bar> * 100\<rfloor> mod 100)"
  by (simp add: float_repr_def Let_def)

lemma hundredth_abs:
  assumes "hundredth x"
  shows "(of_nat (nat \<lfloor>\<bar>x\<bar> * 100\<rfloor>) :: rat) = \<bar>x\<bar> * 100"
proof -
  from assms obtain m :: int where m: "x * 100 = of_int m"
    by (auto simp: hundredth_def)
  have "\<bar>x\<bar> * 100 = \<bar>x * 100\<bar>" by (simp add: abs_mult)
  also have "\<dots> = of_int \<bar>m\<bar>" unfolding m by (simp only: of_int_abs)
  finally have eq: "\<bar>x\<bar> * 100 = of_int \<bar>m\<bar>" .
  have "\<lfloor>(of_int \<bar>m\<bar> :: rat)\<rfloor> = \<bar>m\<bar>" by (rule floor_of_int)
  then have "\<lfloor>\<bar>x\<bar> * 100\<rfloor> = \<bar>m\<bar>" by (simp only: eq)
  then have "(of_nat (nat \<lfloor>\<bar>x\<bar> * 100\<rfloor>) :: rat) = of_int \<bar>m\<bar>" by simp
  then show ?thesis by (simp only: eq)
qed

lemma scan_number_unsigned:
  assumes "ends_number r"
  shows "scan_number (show_nat ip @ ''.'' @ fraction_text fr @ r) =
           Some (JReal (of_nat ip + of_nat (digits_value (fraction_text fr)) /
                          10 ^ length (fraction_text fr)), r)"
proof -
  obtain d ds where d: "show_nat ip = d # ds" "is_digit d"
    using show_nat_hd by blast
  have neg: "(case show_nat ip @ ''.'' @ fraction_text fr @ r of [] \<Rightarrow> False | c # _ \<Rightarrow> c = CHR ''-'') = False"
    using d is_digit_not_minus by simp
  have stop: "''.'' @ fraction_text fr @ r = [] \<or> \<not> is_digit (hd (''.'' @ fraction_text fr @ r))"
    by (simp add: is_digit_not_dot)
  note tw = takeWhile_show_nat [OF stop, of ip]
  note tf = takeWhile_digits [OF fraction_text_digits ends_number_stop [OF assms], of fr]
  show ?thesis
    unfolding scan_number_def Let_def neg
    by (simp add: tw [simplified] tf show_nat_not_Nil digits_value_show_nat fraction_text_not_Nil)
qed

lemma scan_number_signed:
  assumes "ends_number r"
  shows "scan_number (CHR ''-'' # show_nat ip @ ''.'' @ fraction_text fr @ r) =
           Some (JReal (- (of_nat ip + of_nat (digits_value (fraction_text fr)) /
                             10 ^ length (fraction_text fr))), r)"
proof -
  have stop: "''.'' @ fraction_text fr @ r = [] \<or> \<not> is_digit (hd (''.'' @ fraction_text fr @ r))"
    by (simp add: is_digit_not_dot)
  note tw = takeWhile_show_nat [OF stop, of ip]
  note tf = takeWhile_digits [OF fraction_text_digits ends_number_stop [OF assms], of fr]
  show ?thesis
    unfolding scan_number_def Let_def
    by (simp add: tw [simplified] tf show_nat_not_Nil digits_value_show_nat fraction_text_not_Nil)
qed

lemma scan_number_float_repr:
  assumes "hundredth x" and "ends_number r"
  shows "scan_number (float_repr x @ r) = Some (JReal x, r)"
proof -
  define k where "k = nat \<lfloor>\<bar>x\<bar> * 100\<rfloor>"
  have k: "(of_nat k :: rat) = \<bar>x\<bar> * 100"
    unfolding k_def by (rule hundredth_abs [OF assms(1)])
  have "k = 100 * (k div 100) + k mod 100" by simp
  then have "(of_nat k :: rat) = 100 * of_nat (k div 100) + of_nat (k mod 100)"
    by (metis of_nat_add of_nat_mult of_nat_numeral)
  with k have whole: "(of_nat (k div 100) :: rat) + of_nat (k mod 100) / 100 = \<bar>x\<bar>"
    by simp
  have part: "(of_nat (digits_value (fraction_text (k mod 100))) :: rat) /
                10 ^ length (fraction_text (k mod 100)) = of_nat (k mod 100) / 100"
    by (rule fraction_text_value) simp
  have val:
    "(of_nat (k div 100) :: rat) + of_nat (digits_value (fraction_text (k mod 100))) /
       10 ^ length (fraction_text (k mod 100)) = \<bar>x\<bar>"
    unfolding part by (rule whole)
  show ?thesis
  proof (cases "x < 0")
    case True
    with scan_number_signed [OF assms(2), of "k div 100" "k mod 100"] val show ?thesis
      by (simp add: float_repr_parts k_def)
  next
    case False
    with scan_number_unsigned [OF assms(2), of "k div 100" "k mod 100"] val show ?thesis
      by (simp add: float_repr_parts k_def)
  qed
qed


section \<open>Strings in a log line\<close>

lemma of_char_less_256: "(of_char c :: nat) < 256"
proof -
  have "(of_char c :: nat) mod 256 = of_char c" by (rule of_char_mod_256)
  then show ?thesis by (metis mod_less_divisor zero_less_numeral)
qed

lemma hex4_escape: "hex4 CHR ''0'' CHR ''0'' (hexdigit (of_char c div 16)) (hexdigit (of_char c)) = Some c"
proof -
  define n where "n = (of_char c :: nat)"
  have n: "n < 256" unfolding n_def by (rule of_char_less_256)
  then have "n div 16 < 16" by simp
  then have hi: "hexval (hexdigit (n div 16)) = Some (n div 16)"
    by (simp add: hexdigit_code)
  have lo: "hexval (hexdigit n) = Some (n mod 16)"
    by (rule hexdigit_code)
  have zero: "hexval CHR ''0'' = Some 0"
    by (simp add: hexval_def)
  have "char_of n = c" by (simp add: n_def)
  with n hi lo zero show ?thesis
    by (simp add: hex4_def n_def [symmetric])
qed

lemma scan_string_escape:
  "scan_string (escape c @ t) =
     (case scan_string t of None \<Rightarrow> None | Some (u, r) \<Rightarrow> Some (c # u, r))"
proof -
  consider (quote) "c = quote_char" | (bs) "c = backslash" | (nl) "c = CHR 0x0A"
    | (cr) "c = CHR 0x0D" | (tab) "c = CHR 0x09" | (bsp) "c = CHR 0x08" | (ff) "c = CHR 0x0C"
    | (plain) "c \<noteq> quote_char" "c \<noteq> backslash" "32 \<le> (of_char c :: nat)" "(of_char c :: nat) < 127"
    | (code) "c \<noteq> quote_char" "c \<noteq> backslash" "c \<noteq> CHR 0x0A" "c \<noteq> CHR 0x0D"
        "c \<noteq> CHR 0x09" "c \<noteq> CHR 0x08" "c \<noteq> CHR 0x0C"
        "\<not> (32 \<le> (of_char c :: nat) \<and> (of_char c :: nat) < 127)"
    by blast
  then show ?thesis
  proof cases
    case plain
    then have "escape c = [c]" by (auto simp: escape_def quote_char_def backslash_def)
    with plain show ?thesis by simp
  next
    case code
    then have "escape c = [backslash, CHR ''u'', CHR ''0'', CHR ''0'',
                           hexdigit (of_char c div 16), hexdigit (of_char c)]"
      by (simp add: escape_def)
    then show ?thesis
      by (simp add: hex4_escape) (simp add: quote_char_def backslash_def)
  qed (auto simp add: escape_def unescape_def quote_char_def backslash_def split: option.splits)
qed

lemma scan_string_escaped:
  "scan_string (concat (map escape s) @ quote_char # r) = Some (s, r)"
  by (induction s) (simp_all add: scan_string_escape)

lemma scan_string_quoted: "scan_string (tl (quoted s) @ r) = Some (s, r)"
  by (simp add: quoted_def scan_string_escaped)


section \<open>Arrays and objects in a log line\<close>

lemma skip_ws_space [simp]: "skip_ws (CHR '' '' # s) = skip_ws s"
  by (simp add: skip_ws_def is_ws_def)

lemma skip_ws_other: "\<not> is_ws c \<Longrightarrow> skip_ws (c # s) = c # s"
  by (simp add: skip_ws_def)

lemma scan_value_space [simp]: "scan_value n (CHR '' '' # s) = scan_value n s"
  by (cases n) simp_all

lemma scan_member_space [simp]: "scan_member p (CHR '' '' # s) = scan_member p s"
  by (simp add: scan_member_def)

lemma elements_space:
  assumes "\<And>s. p (CHR '' '' # s) = p s"
  shows "elements k close p (CHR '' '' # s) = elements k close p s"
  using assms by (cases k) simp_all

lemma not_ws_simps:
  "\<not> is_ws quote_char" "\<not> is_ws CHR '',''" "\<not> is_ws CHR '']''" "\<not> is_ws CHR ''}''"
  "\<not> is_ws CHR '':''" "\<not> is_ws CHR ''[''" "\<not> is_ws CHR ''{''" "\<not> is_ws CHR ''-''"
  by (simp_all add: is_ws_def quote_char_def)

lemma is_digit_not_ws: "is_digit c \<Longrightarrow> \<not> is_ws c"
  by (auto simp: is_digit_def is_ws_def)

lemma elements_join:
  assumes p_ok: "\<And>v r'. v \<in> set vs \<Longrightarrow>
                   p (text v @ CHR '','' # r') = Some (v, CHR '','' # r') \<and>
                   p (text v @ close # r') = Some (v, close # r')"
    and p_space: "\<And>s. p (CHR '' '' # s) = p s"
    and "vs \<noteq> []" and "length vs \<le> k" and "close \<noteq> CHR '',''" and "\<not> is_ws close"
  shows "elements k close p (join (map text vs) @ close # r) = Some (vs, r)"
  using assms(1,3,4)
proof (induction vs arbitrary: k)
  case Nil
  then show ?case by simp
next
  case (Cons v ws)
  from Cons.prems(3) obtain k' where k: "k = Suc k'" "length ws \<le> k'"
    by (cases k) simp_all
  show ?case
  proof (cases ws)
    case Nil
    with Cons.prems(1) [of v "r"] k assms(5,6) show ?thesis
      by (simp add: skip_ws_other)
  next
    case (Cons w ws')
    have step: "p (text v @ CHR '','' # CHR '' '' # join (map text ws) @ close # r) =
                  Some (v, CHR '','' # CHR '' '' # join (map text ws) @ close # r)"
      using Cons.prems(1) [of v] by simp
    have rest: "elements k' close p (join (map text ws) @ close # r) = Some (ws, r)"
      using Cons.IH [of k'] Cons.prems(1) k Cons by simp
    have sp: "elements k' close p (CHR '' '' # join (map text ws) @ close # r) =
              elements k' close p (join (map text ws) @ close # r)"
      by (rule elements_space) (rule p_space)
    from step rest k Cons show ?thesis
      by (simp add: skip_ws_other not_ws_simps sp [simplified Cons, simplified])
  qed
qed


lemma ends_number_sep:
  "ends_number (CHR '','' # r)" "ends_number (CHR '']'' # r)" "ends_number (CHR ''}'' # r)"
  "ends_number []" "ends_number (CHR 0x0A # r)"
  by (simp_all add: ends_number_def is_digit_def)

lemma show_int_hd:
  "\<exists>c cs. show_int n = c # cs \<and> (c = CHR ''-'' \<or> is_digit c)"
  using show_nat_hd [of "nat n"] by (auto simp: show_int_def)

lemma float_repr_hd:
  "\<exists>c cs. float_repr x = c # cs \<and> (c = CHR ''-'' \<or> is_digit c)"
  using show_nat_hd [of "nat \<lfloor>\<bar>x\<bar> * 100\<rfloor> div 100"] by (auto simp: float_repr_parts)

lemma opens_facts:
  assumes "opens c"
  shows "\<not> is_ws c" and "c \<noteq> CHR '']''" and "c \<noteq> CHR ''}''"
  using assms by (auto simp: opens_def is_ws_def is_digit_def quote_char_def)

lemma json_text_hd: "\<exists>c cs. json_text j = c # cs \<and> opens c"
proof (cases j)
  case (JString s)
  then show ?thesis by (simp add: quoted_def opens_def)
next
  case (JInt n)
  with show_int_hd [of n] show ?thesis by (auto simp: opens_def)
next
  case (JReal x)
  with float_repr_hd [of x] show ?thesis by (auto simp: opens_def)
next
  case (JArray js)
  then show ?thesis by (simp add: opens_def)
next
  case (JObject kjs)
  then show ?thesis by (simp add: opens_def)
qed

lemma json_text_not_Nil: "json_text j \<noteq> []"
  using json_text_hd [of j] by auto

lemma length_join: "sum_list (map length ts) \<le> length (join ts)"
  by (induction ts rule: join.induct) simp_all

lemma nodes_le_text: "nodes j \<le> length (json_text j)"
proof (induction j)
  case (JArray js)
  have "sum_list (map nodes js) \<le> sum_list (map length (map json_text js))"
    unfolding map_map comp_def using JArray by (intro sum_list_mono) simp
  also have "\<dots> \<le> length (join (map json_text js))" by (rule length_join)
  finally show ?case by simp
next
  case (JObject kjs)
  have "sum_list (map (\<lambda>(k, j). nodes j) kjs) \<le>
        sum_list (map length (map (\<lambda>(k, j). member_text k (json_text j)) kjs))"
    unfolding map_map comp_def
  proof (intro sum_list_mono)
    fix kj assume "kj \<in> set kjs"
    with JObject [of kj "snd kj"] show "(case kj of (k, j) \<Rightarrow> nodes j) \<le>
            length (case kj of (k, j) \<Rightarrow> member_text k (json_text j))"
      by (cases kj) (simp add: member_text_def)
  qed
  also have "\<dots> \<le> length (join (map (\<lambda>(k, j). member_text k (json_text j)) kjs))"
    by (rule length_join)
  finally show ?case by simp
qed (simp_all add: quoted_def show_int_def show_nat_not_Nil float_repr_parts Suc_le_eq)

lemma length_le_join:
  assumes "\<forall>t\<in>set ts. t \<noteq> []"
  shows "length ts \<le> length (join ts)"
proof -
  have "length ts = sum_list (map (\<lambda>t. 1) ts)" by (induction ts) simp_all
  also have "\<dots> \<le> sum_list (map length ts)"
    using assms by (intro sum_list_mono) (simp add: Suc_le_eq)
  also have "\<dots> \<le> length (join ts)" by (rule length_join)
  finally show ?thesis .
qed

lemma join_hd:
  assumes "ts \<noteq> []" and "\<exists>c cs. hd ts = c # cs \<and> P c"
  shows "\<exists>c cs. join ts = c # cs \<and> P c"
  using assms by (induction ts rule: join.induct) auto

lemma scan_member_text:
  assumes "p (json_text j @ r) = Some (j, r)" and "\<And>s. p (CHR '' '' # s) = p s"
  shows "scan_member p (member_text k (json_text j) @ r) = Some ((k, j), r)"
proof -
  have "member_text k (json_text j) @ r =
          quote_char # (tl (quoted k) @ CHR '':'' # CHR '' '' # json_text j @ r)"
    by (simp add: member_text_def quoted_def)
  then show ?thesis
    using assms scan_string_quoted [of k "CHR '':'' # CHR '' '' # json_text j @ r"]
    by (simp add: scan_member_def skip_ws_other not_ws_simps)
qed

lemma scan_value_string:
  "scan_value (Suc m) (json_text (JString s) @ r) = Some (JString s, r)"
  by (simp add: quoted_def skip_ws_other not_ws_simps scan_string_escaped)

lemma scan_value_number:
  assumes "t = c # cs" and "c = CHR ''-'' \<or> is_digit c"
    and "scan_number (t @ r) = Some (j, r)"
  shows "scan_value (Suc m) (t @ r) = Some (j, r)"
proof -
  from assms(2) have "\<not> is_ws c" "c \<noteq> quote_char" "c \<noteq> CHR ''[''" "c \<noteq> CHR ''{''"
    by (auto simp: is_ws_def is_digit_def quote_char_def)
  with assms(1,3) show ?thesis by (simp add: skip_ws_other)
qed

lemma scan_value_empty:
  "scan_value (Suc m) (json_text (JArray []) @ r) = Some (JArray [], r)"
  "scan_value (Suc m) (json_text (JObject []) @ r) = Some (JObject [], r)"
  by (simp_all add: skip_ws_other not_ws_simps quote_char_def)

lemma scan_value_array:
  assumes "body = c # cs" and "opens c"
    and "elements (length (body @ CHR '']'' # r)) CHR '']'' (scan_value m) (body @ CHR '']'' # r) =
           Some (js, r)"
  shows "scan_value (Suc m) (CHR ''['' # body @ CHR '']'' # r) = Some (JArray js, r)"
proof -
  from opens_facts [OF assms(2)]
  have skip: "skip_ws (c # cs @ CHR '']'' # r) = c # cs @ CHR '']'' # r"
    by (simp add: skip_ws_other)
  have "skip_ws (CHR ''['' # body @ CHR '']'' # r) = CHR ''['' # body @ CHR '']'' # r"
    by (simp add: skip_ws_other not_ws_simps)
  then have "scan_value (Suc m) (CHR ''['' # body @ CHR '']'' # r) =
        (case skip_ws (body @ CHR '']'' # r) of
           [] \<Rightarrow> None
         | d # r' \<Rightarrow>
             if d = CHR '']'' then Some (JArray [], r')
             else
               (case elements (length (body @ CHR '']'' # r)) CHR '']'' (scan_value m)
                       (body @ CHR '']'' # r) of
                  None \<Rightarrow> None
                | Some (js, r') \<Rightarrow> Some (JArray js, r')))"
    by (simp add: quote_char_def)
  also have "\<dots> = Some (JArray js, r)"
    unfolding assms(3) using skip opens_facts [OF assms(2)] by (simp add: assms(1))
  finally show ?thesis .
qed

lemma scan_value_object:
  assumes "body = quote_char # cs"
    and "elements (length (body @ CHR ''}'' # r)) CHR ''}'' (scan_member (scan_value m))
           (body @ CHR ''}'' # r) = Some (kjs, r)"
  shows "scan_value (Suc m) (CHR ''{'' # body @ CHR ''}'' # r) = Some (JObject kjs, r)"
proof -
  have skip: "skip_ws (quote_char # cs @ CHR ''}'' # r) = quote_char # cs @ CHR ''}'' # r"
    by (simp add: skip_ws_other not_ws_simps)
  have "skip_ws (CHR ''{'' # body @ CHR ''}'' # r) = CHR ''{'' # body @ CHR ''}'' # r"
    by (simp add: skip_ws_other not_ws_simps)
  then have "scan_value (Suc m) (CHR ''{'' # body @ CHR ''}'' # r) =
        (case skip_ws (body @ CHR ''}'' # r) of
           [] \<Rightarrow> None
         | d # r' \<Rightarrow>
             if d = CHR ''}'' then Some (JObject [], r')
             else
               (case elements (length (body @ CHR ''}'' # r)) CHR ''}''
                       (scan_member (scan_value m)) (body @ CHR ''}'' # r) of
                  None \<Rightarrow> None
                | Some (kjs, r') \<Rightarrow> Some (JObject kjs, r')))"
    by (simp add: quote_char_def)
  also have "\<dots> = Some (JObject kjs, r)"
    unfolding assms(2) using skip by (simp add: assms(1) quote_char_def)
  finally show ?thesis .
qed


lemma nodes_member:
  "v \<in> set kjs \<Longrightarrow> v = (k, j) \<Longrightarrow> nodes j \<le> sum_list (map (\<lambda>(k, j). nodes j) kjs)"
  by (induction kjs) auto

lemma scan_value_text:
  "printable j \<Longrightarrow> nodes j \<le> n \<Longrightarrow> ends_number r \<Longrightarrow>
     scan_value n (json_text j @ r) = Some (j, r)"
proof (induction j arbitrary: n r)
  case (JString s)
  then obtain m where n: "n = Suc m" by (cases n) simp_all
  show ?case unfolding n by (rule scan_value_string)
next
  case (JInt k)
  then obtain m where n: "n = Suc m" by (cases n) simp_all
  obtain c cs where c: "show_int k = c # cs" "c = CHR ''-'' \<or> is_digit c"
    using show_int_hd by blast
  have "scan_value (Suc m) (show_int k @ r) = Some (JInt k, r)"
    by (rule scan_value_number [OF c]) (rule scan_number_show_int [OF JInt.prems(3)])
  then show ?case by (simp add: n)
next
  case (JReal x)
  then obtain m where n: "n = Suc m" by (cases n) simp_all
  obtain c cs where c: "float_repr x = c # cs" "c = CHR ''-'' \<or> is_digit c"
    using float_repr_hd by blast
  from JReal.prems have h: "hundredth x" by simp
  have "scan_value (Suc m) (float_repr x @ r) = Some (JReal x, r)"
    by (rule scan_value_number [OF c]) (rule scan_number_float_repr [OF h JReal.prems(3)])
  then show ?case by (simp add: n)
next
  case (JArray js)
  then obtain m where n: "n = Suc m" and m: "sum_list (map nodes js) \<le> m"
    by (cases n) simp_all
  show ?case
  proof (cases "js = []")
    case True
    have "scan_value (Suc m) (json_text (JArray []) @ r) = Some (JArray [], r)"
      by (rule scan_value_empty)
    with True n show ?thesis by (simp only:)
  next
    case False
    let ?body = "join (map json_text js)"
    have each: "\<And>v r'. v \<in> set js \<Longrightarrow>
                  scan_value m (json_text v @ CHR '','' # r') = Some (v, CHR '','' # r') \<and>
                  scan_value m (json_text v @ CHR '']'' # r') = Some (v, CHR '']'' # r')"
    proof -
      fix v r' assume v: "v \<in> set js"
      with JArray.prems(1) have pv: "printable v" by (simp add: list_all_iff)
      from v have "nodes v \<le> sum_list (map nodes js)"
        by (simp add: member_le_sum_list)
      with m have nv: "nodes v \<le> m" by simp
      from JArray.IH [OF v pv nv ends_number_sep(1)] JArray.IH [OF v pv nv ends_number_sep(2)]
      show "scan_value m (json_text v @ CHR '','' # r') = Some (v, CHR '','' # r') \<and>
            scan_value m (json_text v @ CHR '']'' # r') = Some (v, CHR '']'' # r')"
        by blast
    qed
    have "length js \<le> length ?body"
      using length_le_join [of "map json_text js"] by (simp add: json_text_not_Nil)
    then have fuel: "length js \<le> length (?body @ CHR '']'' # r)" by simp
    have scan: "elements (length (?body @ CHR '']'' # r)) CHR '']'' (scan_value m)
                  (?body @ CHR '']'' # r) = Some (js, r)"
      by (rule elements_join [OF each _ False fuel]) (simp_all add: not_ws_simps)
    from False json_text_hd [of "hd js"]
    have "\<exists>c cs. ?body = c # cs \<and> opens c"
      by (intro join_hd) (simp_all add: hd_map)
    then obtain c cs where c: "?body = c # cs" "opens c" by blast
    have "scan_value (Suc m) (CHR ''['' # ?body @ CHR '']'' # r) = Some (JArray js, r)"
      by (rule scan_value_array [OF c scan])
    then show ?thesis by (simp add: n)
  qed
next
  case (JObject kjs)
  then obtain m where n: "n = Suc m" and m: "sum_list (map (\<lambda>(k, j). nodes j) kjs) \<le> m"
    by (cases n) simp_all
  show ?case
  proof (cases "kjs = []")
    case True
    have "scan_value (Suc m) (json_text (JObject []) @ r) = Some (JObject [], r)"
      by (rule scan_value_empty)
    with True n show ?thesis by (simp only:)
  next
    case False
    let ?text = "\<lambda>(k, j). member_text k (json_text j)"
    let ?body = "join (map ?text kjs)"
    have each: "\<And>v r'. v \<in> set kjs \<Longrightarrow>
                  scan_member (scan_value m) (?text v @ CHR '','' # r') = Some (v, CHR '','' # r') \<and>
                  scan_member (scan_value m) (?text v @ CHR ''}'' # r') = Some (v, CHR ''}'' # r')"
    proof -
      fix v r' assume v: "v \<in> set kjs"
      obtain k j where kj: "v = (k, j)" by (cases v)
      from v kj JObject.prems(1) have pv: "printable j" by (auto simp: list_all_iff)
      from v kj have "nodes j \<le> sum_list (map (\<lambda>(k, j). nodes j) kjs)"
        by (rule nodes_member)
      with m have nv: "nodes j \<le> m" by simp
      from v kj have sj: "j \<in> Basic_BNFs.snds v" by simp
      have ia: "scan_value m (json_text j @ CHR '','' # r') = Some (j, CHR '','' # r')"
        by (rule JObject.IH [OF v sj pv nv ends_number_sep(1)])
      have ib: "scan_value m (json_text j @ CHR ''}'' # r') = Some (j, CHR ''}'' # r')"
        by (rule JObject.IH [OF v sj pv nv ends_number_sep(3)])
      have a: "scan_member (scan_value m) (member_text k (json_text j) @ CHR '','' # r') =
                 Some ((k, j), CHR '','' # r')"
        using ia by (rule scan_member_text) simp
      have b: "scan_member (scan_value m) (member_text k (json_text j) @ CHR ''}'' # r') =
                 Some ((k, j), CHR ''}'' # r')"
        using ib by (rule scan_member_text) simp
      from a b kj
      show "scan_member (scan_value m) (?text v @ CHR '','' # r') = Some (v, CHR '','' # r') \<and>
            scan_member (scan_value m) (?text v @ CHR ''}'' # r') = Some (v, CHR ''}'' # r')"
        by simp
    qed
    have "\<forall>t\<in>set (map ?text kjs). t \<noteq> []"
      by (auto simp: member_text_def quoted_def)
    from length_le_join [OF this] have "length kjs \<le> length ?body"
      by simp
    then have fuel: "length kjs \<le> length (?body @ CHR ''}'' # r)" by simp
    have scan: "elements (length (?body @ CHR ''}'' # r)) CHR ''}'' (scan_member (scan_value m))
                  (?body @ CHR ''}'' # r) = Some (kjs, r)"
      by (rule elements_join [OF each _ False fuel]) (simp_all add: not_ws_simps)
    from False have "\<exists>c cs. hd (map ?text kjs) = c # cs \<and> c = quote_char"
      by (cases kjs) (auto simp: member_text_def quoted_def)
    with False have "\<exists>c cs. ?body = c # cs \<and> c = quote_char"
      by (intro join_hd) simp_all
    then obtain cs where c: "?body = quote_char # cs" by blast
    have "scan_value (Suc m) (CHR ''{'' # ?body @ CHR ''}'' # r) = Some (JObject kjs, r)"
      by (rule scan_value_object [OF c scan])
    then show ?thesis by (simp add: n)
  qed
qed


text \<open>
  Every document whose floats are whole hundredths is read back from its text, also with
  white space after it.
\<close>

lemma json_parse_text:
  assumes "printable j" and "\<forall>c\<in>set w. is_ws c"
  shows "json_parse (json_text j @ w) = Some j"
proof -
  have ends: "ends_number w"
  proof (cases w)
    case Nil
    then show ?thesis by (simp add: ends_number_def)
  next
    case (Cons c w')
    with assms(2) have "is_ws c" by simp
    then have "\<not> is_digit c \<and> c \<noteq> CHR ''.''"
      by (auto simp: is_ws_def is_digit_def)
    with Cons show ?thesis by (simp add: ends_number_def)
  qed
  have "nodes j \<le> length (json_text j @ w)"
    using nodes_le_text [of j] by simp
  from scan_value_text [OF assms(1) this ends]
  have "scan_value (length (json_text j @ w)) (json_text j @ w) = Some (j, w)" .
  moreover from assms(2) have "skip_ws w = []"
    by (simp add: skip_ws_def)
  ultimately show ?thesis by (simp add: json_parse_def)
qed


section \<open>Rounding to two decimals\<close>

lemma hundredth_of_int: "hundredth (of_int k / 100)"
  by (simp add: hundredth_def)

lemma round2_cases:
  obtains (down) "round2 c = of_int \<lfloor>c * 100\<rfloor> / 100"
      and "c * 100 - of_int \<lfloor>c * 100\<rfloor> < 1 / 2 \<or>
           (c * 100 - of_int \<lfloor>c * 100\<rfloor> = 1 / 2 \<and> even \<lfloor>c * 100\<rfloor>)"
    | (up) "round2 c = of_int (\<lfloor>c * 100\<rfloor> + 1) / 100"
      and "1 / 2 < c * 100 - of_int \<lfloor>c * 100\<rfloor> \<or>
           (c * 100 - of_int \<lfloor>c * 100\<rfloor> = 1 / 2 \<and> odd \<lfloor>c * 100\<rfloor>)"
  unfolding round2_def Let_def by (cases "c * 100 - of_int \<lfloor>c * 100\<rfloor>" "1 / 2 :: rat" rule: linorder_cases) auto

lemma round2_hundredth: "hundredth (round2 c)"
  by (cases c rule: round2_cases) (simp_all only: hundredth_of_int)

lemma round2_nearest: "\<bar>round2 c - c\<bar> \<le> 1 / 200"
proof -
  define f where "f = c * 100 - of_int \<lfloor>c * 100\<rfloor>"
  have f: "0 \<le> f" "f < 1" unfolding f_def by linarith+
  have c: "c = (of_int \<lfloor>c * 100\<rfloor> + f) / 100" unfolding f_def by simp
  show ?thesis
  proof (cases c rule: round2_cases)
    case down
    then have "f \<le> 1 / 2" unfolding f_def by auto
    moreover have "round2 c - c = - f / 100"
      by (subst (2) c) (simp add: down(1) field_simps)
    ultimately show ?thesis using f by simp
  next
    case up
    then have "1 / 2 \<le> f" unfolding f_def by auto
    moreover have "round2 c - c = (1 - f) / 100"
      by (subst (2) c) (simp add: up(1) field_simps)
    ultimately show ?thesis using f by simp
  qed
qed

lemma round2_tie_even:
  assumes "\<bar>round2 c - c\<bar> = 1 / 200"
  shows "even \<lfloor>round2 c * 100\<rfloor>"
proof -
  define f where "f = c * 100 - of_int \<lfloor>c * 100\<rfloor>"
  have f: "0 \<le> f" "f < 1" unfolding f_def by linarith+
  have c: "c = (of_int \<lfloor>c * 100\<rfloor> + f) / 100" unfolding f_def by simp
  show ?thesis
  proof (cases c rule: round2_cases)
    case down
    have "round2 c - c = - f / 100"
      by (subst (2) c) (simp add: down(1) field_simps)
    with assms f have "f = 1 / 2" by simp
    with down(2) have "even \<lfloor>c * 100\<rfloor>" unfolding f_def by simp
    with down(1) show ?thesis by simp
  next
    case up
    have "round2 c - c = (1 - f) / 100"
      by (subst (2) c) (simp add: up(1) field_simps)
    with assms f have "f = 1 / 2" by simp
    with up(2) have "odd \<lfloor>c * 100\<rfloor>" unfolding f_def by simp
    moreover from up(1) have "\<lfloor>round2 c * 100\<rfloor> = \<lfloor>c * 100\<rfloor> + 1" by simp
    ultimately show ?thesis by simp
  qed
qed

lemma printable_alert:
  assumes "\<forall>d\<in>set ds. hundredth (confidence d)"
  shows "printable (json_dumps (alert t ds))"
  using assms by (auto simp: alert_def alert_object_def list_all_iff split: prod.splits)

lemma printable_entries: "\<forall>d\<in>set (detections_in_zone z thr rs). hundredth (confidence d)"
  by (simp add: detections_in_zone_filter entry_def round2_hundredth)

lemma loads_dumps:
  assumes "printable (json_dumps v)"
  shows "loads (dumps v @ [CHR 0x0A]) = Some (json_loads (json_dumps v))"
  using json_parse_text [OF assms, of "[CHR 0x0A]"]
  by (simp add: loads_def dumps_def is_ws_def)


section \<open>Reading an entry record back\<close>

lemma loads_dumps_alert_object:
  "json_loads (json_dumps (alert_object d)) =
     PDict [(''name'', PStr (name d)), (''confidence'', PFloat (confidence d)),
            (''coords'', case coords d of (x1, y1, x2, y2) \<Rightarrow>
                           PList [PInt x1, PInt y1, PInt x2, PInt y2])]"
  by (simp add: alert_object_def split: prod.splits)

lemma loads_dumps_alert:
  "json_loads (json_dumps (alert t ds)) =
     PDict [(''event'', PStr ''Object ENTERED red zone''),
            (''timestamp'', PStr (strftime_ymd_hms t)),
            (''objects'', PList (map (\<lambda>d.
               PDict [(''name'', PStr (name d)), (''confidence'', PFloat (confidence d)),
                      (''coords'', case coords d of (x1, y1, x2, y2) \<Rightarrow>
                                     PList [PInt x1, PInt y1, PInt x2, PInt y2])]) ds))]"
  by (simp add: alert_def loads_dumps_alert_object comp_def)

text \<open>
  Claim C4. When a frame with qualifying detections arrives while the zone is empty
  and the log can be written, the iteration appends one line to the log file: the text
  of \<^verbatim>\<open>json.dumps(alert)\<close> and a newline. \<^verbatim>\<open>json.loads\<close> of that line succeeds and
  gives a record with the keys \<^verbatim>\<open>event\<close>, \<^verbatim>\<open>timestamp\<close> and \<^verbatim>\<open>objects\<close> in this order,
  whose objects are, for each detection handed to the logger and in their order, a
  record of its \<^verbatim>\<open>name\<close>, its \<^verbatim>\<open>confidence\<close> and its four \<^verbatim>\<open>coords\<close>
  \<open>[x1, y1, x2, y2]\<close>. The names, confidences and coordinates handed to the logger are
  the labels, the rounded confidences and the corner coordinates of the qualifying
  boxes of the frame. Rounding gives a whole number of hundredths, at most half a
  hundredth from the confidence, and the even one when the confidence is halfway
  between two.
\<close>

theorem enter_record_round_trip:
  assumes "frame i = Some rs"
    and "ds = detections_in_zone RED_ZONE CONFIDENCE_THRESHOLD rs"
    and "ds \<noteq> []" and "\<not> alert_active s" and "log_ok i"
  shows "log_file (control_state (iteration s i)) = log_file s @ [json_dumps (alert (now i) ds)] \<and>
         log_text (control_state (iteration s i)) =
           log_text s @ dumps (alert (now i) ds) @ [CHR 0x0A] \<and>
         loads (dumps (alert (now i) ds) @ [CHR 0x0A]) =
           Some (PDict [(''event'', PStr ''Object ENTERED red zone''),
                        (''timestamp'', PStr (strftime_ymd_hms (now i))),
                        (''objects'', PList (map (\<lambda>d.
                           PDict [(''name'', PStr (name d)), (''confidence'', PFloat (confidence d)),
                                  (''coords'', case coords d of (x1, y1, x2, y2) \<Rightarrow>
                                                 PList [PInt x1, PInt y1, PInt x2, PInt y2])]) ds))]) \<and>
         map name ds = map label (filter (qualifies RED_ZONE CONFIDENCE_THRESHOLD) (concat rs)) \<and>
         map confidence ds =
           map (\<lambda>b. round2 (conf b)) (filter (qualifies RED_ZONE CONFIDENCE_THRESHOLD) (concat rs)) \<and>
         map coords ds =
           map (\<lambda>b. (bx1 b, by1 b, bx2 b, by2 b))
             (filter (qualifies RED_ZONE CONFIDENCE_THRESHOLD) (concat rs)) \<and>
         hundredth (round2 c) \<and> \<bar>round2 c - c\<bar> \<le> 1 / 200 \<and>
         (\<bar>round2 c - c\<bar> = 1 / 200 \<longrightarrow> even \<lfloor>round2 c * 100\<rfloor>)"
proof -
  have logged: "log_file (control_state (iteration s i)) = log_file s @ [json_dumps (alert (now i) ds)]"
    by (rule iteration_enter_log [OF assms])
  then have appended: "log_text (control_state (iteration s i)) =
                     log_text s @ dumps (alert (now i) ds) @ [CHR 0x0A]"
    by (simp add: log_text_def dumps_def)
  have "printable (json_dumps (alert (now i) ds))"
    unfolding assms(2) by (rule printable_alert) (rule printable_entries)
  then have "loads (dumps (alert (now i) ds) @ [CHR 0x0A]) =
               Some (json_loads (json_dumps (alert (now i) ds)))"
    by (rule loads_dumps)
  then have parsed: "loads (dumps (alert (now i) ds) @ [CHR 0x0A]) =
           Some (PDict [(''event'', PStr ''Object ENTERED red zone''),
                        (''timestamp'', PStr (strftime_ymd_hms (now i))),
                        (''objects'', PList (map (\<lambda>d.
                           PDict [(''name'', PStr (name d)), (''confidence'', PFloat (confidence d)),
                                  (''coords'', case coords d of (x1, y1, x2, y2) \<Rightarrow>
                                                 PList [PInt x1, PInt y1, PInt x2, PInt y2])]) ds))])"
    by (simp only: loads_dumps_alert)
  have fields:
    "map name ds = map label (filter (qualifies RED_ZONE CONFIDENCE_THRESHOLD) (concat rs))"
    "map confidence ds =
       map (\<lambda>b. round2 (conf b)) (filter (qualifies RED_ZONE CONFIDENCE_THRESHOLD) (concat rs))"
    "map coords ds =
       map (\<lambda>b. (bx1 b, by1 b, bx2 b, by2 b))
         (filter (qualifies RED_ZONE CONFIDENCE_THRESHOLD) (concat rs))"
    unfolding assms(2) by (simp_all add: detections_in_zone_filter entry_def comp_def)
  have rounding: "hundredth (round2 c)" "\<bar>round2 c - c\<bar> \<le> 1 / 200"
    "\<bar>round2 c - c\<bar> = 1 / 200 \<longrightarrow> even \<lfloor>round2 c * 100\<rfloor>"
    using round2_hundredth round2_nearest round2_tie_even by blast+
  from logged appended parsed fields rounding show ?thesis by blast
qed

lemma floor_quotient: "\<lfloor>(numeral a :: rat) / numeral b\<rfloor> = numeral a div numeral b"
  using floor_divide_of_int_eq [of "numeral a" "numeral b", where ?'a = rat] by simp

theorem enter_record_round_trip_witness:
  "frame rounding_input = Some [[dog_box, weak_box, light_box]] \<and>
   detections_in_zone RED_ZONE CONFIDENCE_THRESHOLD [[dog_box, weak_box, light_box]] =
     [entry dog_box, entry light_box] \<and>
   \<not> alert_active initial \<and> log_ok rounding_input \<and>
   log_text (control_state (iteration initial rounding_input)) = rounding_text @ [CHR 0x0A] \<and>
   loads (rounding_text @ [CHR 0x0A]) = Some rounding_record \<and>
   map confidence [entry dog_box, entry light_box] = [88 / 100, 62 / 100] \<and>
   \<bar>round2 (5 / 8) - 5 / 8\<bar> = 1 / 200 \<and> even \<lfloor>round2 (5 / 8) * 100\<rfloor>"
proof -
  have fr: "frame rounding_input = Some [[dog_box, weak_box, light_box]]"
    by (simp add: rounding_input_def)
  have ds: "detections_in_zone RED_ZONE CONFIDENCE_THRESHOLD [[dog_box, weak_box, light_box]] =
              [entry dog_box, entry light_box]"
    by (simp add: detections_in_zone_filter)
       (simp add: dog_box_def light_box_def sample_defs run_defs floor_quotient)
  have ne: "[entry dog_box, entry light_box] \<noteq> []"
    by simp
  have idle: "\<not> alert_active initial"
    by (simp add: initial_def)
  have ok: "log_ok rounding_input"
    by (simp add: rounding_input_def)
  have c: "map confidence [entry dog_box, entry light_box] = [88 / 100, 62 / 100]"
    by (simp add: dog_box_def light_box_def sample_defs run_defs floor_quotient)
  have tie: "\<bar>round2 (5 / 8) - 5 / 8\<bar> = 1 / 200"
    by (simp add: round2_def Let_def floor_quotient)
  have line: "dumps (alert (now rounding_input) [entry dog_box, entry light_box]) = rounding_text"
    by (simp add: dumps_def rounding_input_def rounding_text_def dog_box_def light_box_def
          sample_defs run_defs text_defs show_nat.simps floor_quotient)
  have rec:
    "PDict [(''event'', PStr ''Object ENTERED red zone''),
            (''timestamp'', PStr (strftime_ymd_hms (now rounding_input))),
            (''objects'', PList (map (\<lambda>d.
               PDict [(''name'', PStr (name d)), (''confidence'', PFloat (confidence d)),
                      (''coords'', case coords d of (x1, y1, x2, y2) \<Rightarrow>
                                     PList [PInt x1, PInt y1, PInt x2, PInt y2])])
               [entry dog_box, entry light_box]))] =
     rounding_record"
    by (simp add: rounding_record_def rounding_input_def dog_box_def light_box_def
          sample_defs run_defs floor_quotient)
  have empty: "log_text initial = []"
    by (simp add: log_text_def initial_def)
  note th = enter_record_round_trip [OF fr ds [symmetric] ne idle ok, of "5 / 8"]
  from th have
    "log_text (control_state (iteration initial rounding_input)) =
       log_text initial @ dumps (alert (now rounding_input) [entry dog_box, entry light_box]) @
       [CHR 0x0A]"
    by blast
  then have written:
    "log_text (control_state (iteration initial rounding_input)) = rounding_text @ [CHR 0x0A]"
    by (simp only: line empty append_Nil)
  from th have
    "loads (dumps (alert (now rounding_input) [entry dog_box, entry light_box]) @ [CHR 0x0A]) =
       Some (PDict [(''event'', PStr ''Object ENTERED red zone''),
                    (''timestamp'', PStr (strftime_ymd_hms (now rounding_input))),
                    (''objects'', PList (map (\<lambda>d.
                       PDict [(''name'', PStr (name d)), (''confidence'', PFloat (confidence d)),
                              (''coords'', case coords d of (x1, y1, x2, y2) \<Rightarrow>
                                             PList [PInt x1, PInt y1, PInt x2, PInt y2])])
                       [entry dog_box, entry light_box]))])"
    by blast
  then have parsed: "loads (rounding_text @ [CHR 0x0A]) = Some rounding_record"
    by (simp only: line rec)
  from th tie have even: "even \<lfloor>round2 (5 / 8) * 100\<rfloor>"
    by blast
  from fr ds idle ok written parsed c tie even show ?thesis by blast
qed

section \<open>Entry records are never empty\<close>

lemma entry_exit_objects:
  assumes "\<forall>j\<in>set (log_file s). kind_of j = Some ENTER \<longrightarrow> (\<exists>os. objects_of j = Some os \<and> os \<noteq> [])"
  shows "\<forall>j\<in>set (log_file (control_state (entry_exit s i ds))).
           kind_of j = Some ENTER \<longrightarrow> (\<exists>os. objects_of j = Some os \<and> os \<noteq> [])"
proof (cases "(ds \<noteq> []) = alert_active s")
  case True
  with assms show ?thesis by (simp add: entry_exit_idle)
next
  case due: False
  show ?thesis
  proof (cases "log_ok i")
    case False
    with due assms show ?thesis by (simp add: entry_exit_log_fails)
  next
    case ok: True
    show ?thesis
    proof (cases "ds = []")
      case True
      with due have "alert_active s" by simp
      with True ok assms show ?thesis
        by (simp add: entry_exit_leave kind_of_exit_event)
    next
      case False
      with due have "\<not> alert_active s" by simp
      with False ok assms show ?thesis
        by (cases "imwrite i") (simp_all add: entry_exit_enter objects_of_alert)
    qed
  qed
qed

lemma iteration_objects:
  assumes "\<forall>j\<in>set (log_file s). kind_of j = Some ENTER \<longrightarrow> (\<exists>os. objects_of j = Some os \<and> os \<noteq> [])"
  shows "\<forall>j\<in>set (log_file (control_state (iteration s i))).
           kind_of j = Some ENTER \<longrightarrow> (\<exists>os. objects_of j = Some os \<and> os \<noteq> [])"
proof (cases "frame i")
  case None
  with assms show ?thesis by (simp add: iteration_def)
next
  case (Some rs)
  from entry_exit_objects [OF assms, of i "detections_in_zone RED_ZONE CONFIDENCE_THRESHOLD rs"] Some
  show ?thesis by (auto simp: iteration_def split: control.splits)
qed

lemma run_loop_objects:
  assumes "\<forall>j\<in>set (log_file s). kind_of j = Some ENTER \<longrightarrow> (\<exists>os. objects_of j = Some os \<and> os \<noteq> [])"
  shows "\<forall>j\<in>set (log_file (final_state (run_loop s ins))).
           kind_of j = Some ENTER \<longrightarrow> (\<exists>os. objects_of j = Some os \<and> os \<noteq> [])"
  using assms
proof (induction ins arbitrary: s)
  case Nil
  then show ?case by (simp add: final_state_def)
next
  case (Cons i ins)
  from iteration_objects [OF Cons.prems, of i] Cons.IH show ?case
    by (cases "iteration s i") (simp_all add: final_state_def)
qed

text \<open>
  Claim C10. In every run from the initial state, whatever the inputs, every line of
  the log that records an entry has an \<^verbatim>\<open>objects\<close> array with at least one object.
\<close>

theorem enter_record_nonempty:
  "\<forall>j\<in>set (log_file (final_state (run_loop initial ins))).
     kind_of j = Some ENTER \<longrightarrow> (\<exists>os. objects_of j = Some os \<and> os \<noteq> [])"
  by (rule run_loop_objects) (simp add: initial_def)

theorem enter_record_nonempty_witness:
  "person_line \<in> set (log_file (final_state (run_loop initial [occupied_input]))) \<and>
   kind_of person_line = Some ENTER \<and>
   objects_of person_line \<noteq> None \<and> objects_of person_line \<noteq> Some []"
proof -
  have inlog: "person_line \<in> set (log_file (final_state (run_loop initial [occupied_input])))"
    by (simp add: sample_defs run_defs)
  have kind: "kind_of person_line = Some ENTER"
    by (simp add: sample_defs run_defs)
  from enter_record_nonempty [of "[occupied_input]"] inlog kind
  have "\<exists>os. objects_of person_line = Some os \<and> os \<noteq> []"
    by blast
  then have "objects_of person_line \<noteq> None \<and> objects_of person_line \<noteq> Some []"
    by auto
  with inlog kind show ?thesis by blast
qed

end
